theory Spec2Isabelle
  imports Main "HOL-Library.Word" "HOL-Library.Signed_Division"
begin

section \<open>cmdcache: a command-line memoization tool\<close>

text \<open>
  The program (\<^verbatim>\<open>main.go\<close>) runs a command, tees its standard output and standard
  error through two timestamping writers into one channel, and a single consumer
  (\<^verbatim>\<open>plex\<close>) marshals every record of the channel into a compressed file named after
  the md5 digest of the command line. A later run with the same command line replays the
  file instead of running the command.

  Bytes are \<open>8 word\<close>. Go's \<^verbatim>\<open>int\<close> is modelled by \<open>int\<close>; the only narrowing
  conversion of the program, \<^verbatim>\<open>byte(exitCode)\<close>, is \<open>word_of_int\<close>, which wraps.
  Points in time and durations are integers counting nanoseconds, as
  \<^verbatim>\<open>time.Duration\<close> does.
\<close>

type_synonym byte = "8 word"

subsection \<open>Time\<close>

definition Millisecond :: int where
  "Millisecond = 1000000"

definition Second :: int where
  "Second = 1000000000"

text \<open>
  \<^verbatim>\<open>Time.Sub\<close> returns the difference of two instants as a Duration, a signed 64-bit
  count of nanoseconds; a difference outside that range is replaced by the largest or
  smallest Duration.
\<close>

definition Sub :: "int \<Rightarrow> int \<Rightarrow> int" where
  "Sub t u =
     (let d = t - u in
      if d < - (2 ^ 63) then - (2 ^ 63)
      else if 2 ^ 63 - 1 < d then 2 ^ 63 - 1
      else d)"

subsection \<open>Cache key and freshness (main, lines 128-135)\<close>

text \<open>
  \<^verbatim>\<open>strings.Join(args, " ")\<close>: the elements separated by one space.
\<close>

fun strings_Join :: "string list \<Rightarrow> string \<Rightarrow> string" where
  "strings_Join [] sep = []"
| "strings_Join [a] sep = a"
| "strings_Join (a # b # as) sep = a @ sep @ strings_Join (b # as) sep"

text \<open>
  \<^verbatim>\<open>filename := fmt.Sprintf("%x", md5.Sum(...)) + ".ts"\<close>. The digest function of
  \<^verbatim>\<open>crypto/md5\<close>, printed in hexadecimal, is the parameter \<open>md5hex\<close>.
\<close>

definition filename :: "(string \<Rightarrow> string) \<Rightarrow> string list \<Rightarrow> string" where
  "filename md5hex args = md5hex (strings_Join args '' '') @ ''.ts''"

text \<open>
  The age of an entry as line 135 computes it:
  \<^verbatim>\<open>int(time.Now().Sub(stat.ModTime()) / time.Second)\<close>. Go's integer division truncates
  towards zero, which is \<open>sdiv\<close>.
\<close>

definition age_seconds :: "int \<Rightarrow> int \<Rightarrow> int" where
  "age_seconds now modTime = Sub now modTime sdiv Second"

text \<open>
  The condition of lines 133-135. \<open>stat\<close> is the result of \<^verbatim>\<open>os.Stat(location)\<close>:
  \<open>None\<close> when it returned an error, otherwise the modification time of the file.
\<close>

definition fresh :: "int option \<Rightarrow> int \<Rightarrow> int \<Rightarrow> bool" where
  "fresh stat ttl now =
     (case stat of
        None \<Rightarrow> False
      | Some modTime \<Rightarrow> ttl = - 1 \<or> age_seconds now modTime \<le> ttl)"

subsection \<open>Records and timestamped writers (lines 35-66)\<close>

text \<open>
  \<^verbatim>\<open>BufRecord\<close> has the fields \<^verbatim>\<open>T\<close>, \<^verbatim>\<open>Id\<close> and \<^verbatim>\<open>Buf\<close>; the second is
  written \<open>Id'\<close> here, \<open>Id\<close> being the identity relation of HOL.
\<close>

record BufRecord =
  T :: int
  Id' :: int
  Buf :: "byte list"

text \<open>
  \<^verbatim>\<open>Timestamped\<close> holds the time of the previous write and the stream id (fields
  \<^verbatim>\<open>t\<close> and \<^verbatim>\<open>id\<close>); the channel it sends to is the one channel of the program and
  is represented by the record that \<open>Write\<close> returns. \<open>OpenTS\<close> and \<open>Write\<close> take
  the value of \<^verbatim>\<open>time.Now()\<close> as an argument.
\<close>

record Timestamped =
  ts_t :: int
  ts_id :: int

definition OpenTS :: "int \<Rightarrow> int \<Rightarrow> Timestamped" where
  "OpenTS now i = \<lparr>ts_t = now, ts_id = i\<rparr>"

definition Write :: "Timestamped \<Rightarrow> int \<Rightarrow> byte list \<Rightarrow> Timestamped \<times> BufRecord \<times> nat" where
  "Write ts tn d =
     (let dif = Sub tn (ts_t ts) sdiv Millisecond;
          rec = \<lparr>T = dif, Id' = ts_id ts, Buf = d\<rparr>
      in (ts\<lparr>ts_t := tn\<rparr>, rec, length d))"

subsection \<open>Values of type \<^verbatim>\<open>interface{}\<close> and \<open>DurationOf\<close> (lines 75-81)\<close>

text \<open>
  The dynamic types that \<^verbatim>\<open>DecodeInterface\<close> of the msgpack library returns. An integer
  value is kept as an \<open>int\<close>; the constructor is its Go type. Floating point numbers
  and extension types are not modelled.
\<close>

datatype iface =
    VNil
  | VBool bool
  | VInt8 int | VInt16 int | VInt32 int | VInt64 int
  | VUint8 int | VUint16 int | VUint32 int | VUint64 int
  | VString string
  | VBytes "byte list"
  | VSlice "iface list"
  | VMap "(string \<times> iface) list"

text \<open>Decimal digits of a natural number, and \<^verbatim>\<open>%v\<close> of an integer.\<close>

fun digits :: "nat \<Rightarrow> string" where
  "digits n =
     (if n < 10 then [char_of (48 + n)]
      else digits (n div 10) @ [char_of (48 + n mod 10)])"

definition itoa :: "int \<Rightarrow> string" where
  "itoa n = (if n < 0 then CHR ''-'' # digits (nat (- n)) else digits (nat n))"

text \<open>
  \<^verbatim>\<open>fmt.Sprintf("%v", i)\<close>. A map is printed with its entries in the order of the list
  (Go sorts them by key); \<open>DurationOf\<close> reads only the first characters of the result.
\<close>

fun Sprintf_v :: "iface \<Rightarrow> string" where
  "Sprintf_v VNil = ''<nil>''"
| "Sprintf_v (VBool b) = (if b then ''true'' else ''false'')"
| "Sprintf_v (VInt8 n) = itoa n"
| "Sprintf_v (VInt16 n) = itoa n"
| "Sprintf_v (VInt32 n) = itoa n"
| "Sprintf_v (VInt64 n) = itoa n"
| "Sprintf_v (VUint8 n) = itoa n"
| "Sprintf_v (VUint16 n) = itoa n"
| "Sprintf_v (VUint32 n) = itoa n"
| "Sprintf_v (VUint64 n) = itoa n"
| "Sprintf_v (VString s) = s"
| "Sprintf_v (VBytes bs) = ''['' @ strings_Join (map (\<lambda>b. digits (unat b)) bs) '' '' @ '']''"
| "Sprintf_v (VSlice xs) = ''['' @ strings_Join (map Sprintf_v xs) '' '' @ '']''"
| "Sprintf_v (VMap m) =
     ''map['' @ strings_Join (map (\<lambda>kv. fst kv @ '':'' @ Sprintf_v (snd kv)) m) '' '' @ '']''"

text \<open>
  \<^verbatim>\<open>fmt.Sscanf(s, "%d", &d)\<close>: leading blanks are skipped, then an optional sign and a
  non-empty run of decimal digits are read; the value has to fit 64 bits. \<open>None\<close> is
  an error, which leaves \<^verbatim>\<open>d\<close> as it was.
\<close>

definition isSpace :: "char \<Rightarrow> bool" where
  "isSpace c = (c = CHR '' '' \<or> c = CHR 0x09)"

definition isDigit :: "char \<Rightarrow> bool" where
  "isDigit c = (48 \<le> (of_char c :: nat) \<and> (of_char c :: nat) \<le> 57)"

definition atoi :: "string \<Rightarrow> nat" where
  "atoi ds = foldl (\<lambda>a c. 10 * a + (of_char c - 48)) 0 ds"

definition Sscanf_d :: "string \<Rightarrow> int option" where
  "Sscanf_d s =
     (let s1 = dropWhile isSpace s;
          signed = (s1 \<noteq> [] \<and> (hd s1 = CHR ''-'' \<or> hd s1 = CHR ''+''));
          neg = (s1 \<noteq> [] \<and> hd s1 = CHR ''-'');
          tok = takeWhile isDigit (if signed then tl s1 else s1);
          v = (if neg then - int (atoi tok) else int (atoi tok))
      in if tok = [] \<or> v < - (2 ^ 63) \<or> 2 ^ 63 - 1 < v then None else Some v)"

text \<open>\<^verbatim>\<open>var d int\<close> starts at zero and the result of \<^verbatim>\<open>Sscanf\<close> is not looked at.\<close>

definition DurationOf :: "iface \<Rightarrow> int" where
  "DurationOf i = (case Sscanf_d (Sprintf_v i) of Some d \<Rightarrow> d | None \<Rightarrow> 0)"

subsection \<open>Replay (lines 141-169)\<close>

text \<open>
  \<^verbatim>\<open>rec["Id"]\<close> on a \<^verbatim>\<open>map[string]interface{}\<close>: the decoder stores the entries one
  after the other, so a later entry replaces an earlier one with the same key; a missing
  key gives the nil interface.
\<close>

definition index :: "(string \<times> iface) list \<Rightarrow> string \<Rightarrow> iface" where
  "index m k = (case map_of (rev m) k of None \<Rightarrow> VNil | Some v \<Rightarrow> v)"

text \<open>
  What a run does to the outside: \<open>Sleep n\<close> is the call
  \<^verbatim>\<open>time.Sleep(time.Duration(n) * time.Millisecond)\<close>, \<open>Stdout\<close> and \<open>Stderr\<close> are
  writes to the two streams of the process.

  How a run ends: \<open>Exit c\<close> is \<^verbatim>\<open>panic(Exit{c})\<close>, which \<^verbatim>\<open>handleExit\<close> turns into
  \<^verbatim>\<open>os.Exit(c)\<close> after the deferred calls; \<open>Crash\<close> is any other panic (a failed type
  assertion, an index out of range, a nil dereference), which \<^verbatim>\<open>handleExit\<close> raises
  again; \<open>Blocked\<close> is a receive that is never answered.
\<close>

datatype effect = Sleep int | Stdout "byte list" | Stderr "byte list"

datatype outcome = Exit int | Crash | Blocked

text \<open>
  The loop of lines 142-169. The list holds the values that the successive calls of
  \<^verbatim>\<open>mp.DecodeInterface()\<close> return without error; the call after the last one returns an
  error. The type assertions of lines 146-148 panic on another dynamic type, and so does
  \<^verbatim>\<open>buf[0]\<close> on an empty slice. The \<^verbatim>\<open>switch\<close> has no default.
\<close>

fun replay_loop :: "bool \<Rightarrow> iface list \<Rightarrow> int \<Rightarrow> effect list \<Rightarrow> outcome \<times> effect list" where
  "replay_loop delay [] exitCode out = (Exit exitCode, out)"
| "replay_loop delay (i # rest) exitCode out =
     (case i of
        VMap rec \<Rightarrow>
          (case index rec ''Id'' of
             VInt8 id' \<Rightarrow>
               (case index rec ''Buf'' of
                  VBytes buf \<Rightarrow>
                    (let out1 = (if delay then out @ [Sleep (DurationOf (index rec ''T''))] else out)
                     in if id' = 1 then replay_loop delay rest exitCode (out1 @ [Stdout buf])
                        else if id' = 2 then replay_loop delay rest exitCode (out1 @ [Stderr buf])
                        else if id' = 127 then
                          (case buf of
                             [] \<Rightarrow> (Crash, out1)
                           | b # _ \<Rightarrow> replay_loop delay rest (uint b) out1)
                        else replay_loop delay rest exitCode out1)
                | _ \<Rightarrow> (Crash, out))
           | _ \<Rightarrow> (Crash, out))
      | _ \<Rightarrow> (Crash, out))"

subsection \<open>The codec: \<^verbatim>\<open>msgpack.Marshal\<close> and \<^verbatim>\<open>DecodeInterface\<close>\<close>

text \<open>
  Modelled from the spec: the Record Codec (\<^verbatim>\<open>msgpack.Marshal\<close>, \<^verbatim>\<open>msgpack.NewDecoder\<close>
  and \<^verbatim>\<open>DecodeInterface\<close>) is the imported library \<^verbatim>\<open>github.com/vmihailenco/msgpack\<close>,
  whose source is not part of the repository. The spec asks for a self-describing,
  streaming encoding that is lossless for the numeric fields and for the tags; the bytes
  below are those of the MessagePack format that the library implements, in the form the
  program relies on: a struct is written as a map from its field names to its fields, in
  the order of declaration; an integer is written in the shortest form that holds it;
  \<^verbatim>\<open>DecodeInterface\<close> returns an \<^verbatim>\<open>int8\<close> for a one-byte integer (the assertion
  \<^verbatim>\<open>rec["Id"].(int8)\<close> of line 147), the unsigned or signed type of the width read
  otherwise (the comment of lines 68-74), and a \<^verbatim>\<open>map[string]interface{}\<close> for a map
  (line 146). \<^verbatim>\<open>compress/gzip\<close> is taken as the identity: reading the file gives the
  bytes that were written.

  Big-endian bytes of a number, and back.
\<close>

fun be_bytes :: "nat \<Rightarrow> nat \<Rightarrow> byte list" where
  "be_bytes 0 n = []"
| "be_bytes (Suc k) n = be_bytes k (n div 256) @ [of_nat n]"

definition be_nat :: "byte list \<Rightarrow> nat" where
  "be_nat bs = foldl (\<lambda>a b. 256 * a + unat b) 0 bs"

text \<open>A Go string is a sequence of bytes; \<open>string\<close> is a list of 8-bit characters.\<close>

definition byte_of_char :: "char \<Rightarrow> byte" where
  "byte_of_char c = of_nat (of_char c)"

definition char_of_byte :: "byte \<Rightarrow> char" where
  "char_of_byte b = char_of (unat b)"

text \<open>
  \<^verbatim>\<open>EncodeUint\<close>, \<^verbatim>\<open>EncodeInt\<close>, \<^verbatim>\<open>EncodeString\<close>, \<^verbatim>\<open>EncodeBytes\<close> and
  \<^verbatim>\<open>EncodeMapLen\<close> of the library. A nil slice, which the program never sends, would be
  written as nil; an empty list stands for the empty slice.
\<close>

definition EncodeUint :: "int \<Rightarrow> byte list" where
  "EncodeUint n =
     (if n \<le> 127 then [word_of_int n]
      else if n \<le> 255 then 0xcc # be_bytes 1 (nat n)
      else if n \<le> 65535 then 0xcd # be_bytes 2 (nat n)
      else if n \<le> 4294967295 then 0xce # be_bytes 4 (nat n)
      else 0xcf # be_bytes 8 (nat n))"

definition EncodeInt :: "int \<Rightarrow> byte list" where
  "EncodeInt n =
     (if 0 \<le> n then EncodeUint n
      else if - 32 \<le> n then [word_of_int n]
      else if - 128 \<le> n then 0xd0 # be_bytes 1 (nat (n mod 2 ^ 8))
      else if - 32768 \<le> n then 0xd1 # be_bytes 2 (nat (n mod 2 ^ 16))
      else if - 2147483648 \<le> n then 0xd2 # be_bytes 4 (nat (n mod 2 ^ 32))
      else 0xd3 # be_bytes 8 (nat (n mod 2 ^ 64)))"

definition EncodeString :: "string \<Rightarrow> byte list" where
  "EncodeString s =
     (let l = length s in
      (if l < 32 then [0xa0 + of_nat l]
       else if l < 256 then 0xd9 # be_bytes 1 l
       else if l < 65536 then 0xda # be_bytes 2 l
       else 0xdb # be_bytes 4 l) @ map byte_of_char s)"

definition EncodeBytes :: "byte list \<Rightarrow> byte list" where
  "EncodeBytes v =
     (let l = length v in
      (if l < 256 then 0xc4 # be_bytes 1 l
       else if l < 65536 then 0xc5 # be_bytes 2 l
       else 0xc6 # be_bytes 4 l) @ v)"

definition EncodeMapLen :: "nat \<Rightarrow> byte list" where
  "EncodeMapLen l =
     (if l < 16 then [0x80 + of_nat l]
      else if l < 65536 then 0xde # be_bytes 2 l
      else 0xdf # be_bytes 4 l)"

text \<open>
  \<^verbatim>\<open>msgpack.Marshal(rec)\<close> for a \<^verbatim>\<open>BufRecord\<close>: a map of three entries. It writes
  into a buffer in memory and returns no error.
\<close>

definition Marshal :: "BufRecord \<Rightarrow> byte list option" where
  "Marshal rec =
     Some (EncodeMapLen 3
           @ EncodeString ''T'' @ EncodeInt (T rec)
           @ EncodeString ''Id'' @ EncodeInt (Id' rec)
           @ EncodeString ''Buf'' @ EncodeBytes (Buf rec))"

text \<open>
  The decoder. \<open>readN\<close> takes \<open>n\<close> bytes from the input or fails; \<open>bytesLen\<close> reads
  the length of a string or of a byte slice (no length for nil).
\<close>

definition readN :: "nat \<Rightarrow> byte list \<Rightarrow> (byte list \<times> byte list) option" where
  "readN n bs = (if length bs < n then None else Some (take n bs, drop n bs))"

definition read_uint :: "nat \<Rightarrow> byte list \<Rightarrow> (nat \<times> byte list) option" where
  "read_uint k bs = (case readN k bs of None \<Rightarrow> None | Some (h, r) \<Rightarrow> Some (be_nat h, r))"

definition read_int :: "nat \<Rightarrow> byte list \<Rightarrow> (int \<times> byte list) option" where
  "read_int k bs =
     (case read_uint k bs of
        None \<Rightarrow> None
      | Some (v, r) \<Rightarrow>
          Some (if 2 ^ (8 * k - 1) \<le> v then int v - 2 ^ (8 * k) else int v, r))"

definition bytesLen :: "byte \<Rightarrow> byte list \<Rightarrow> (nat option \<times> byte list) option" where
  "bytesLen c bs =
     (let k = unat c in
      if k = 0xc0 then Some (None, bs)
      else if 0xa0 \<le> k \<and> k \<le> 0xbf then Some (Some (k - 0xa0), bs)
      else if k = 0xd9 \<or> k = 0xc4 then map_option (\<lambda>(n, r). (Some n, r)) (read_uint 1 bs)
      else if k = 0xda \<or> k = 0xc5 then map_option (\<lambda>(n, r). (Some n, r)) (read_uint 2 bs)
      else if k = 0xdb \<or> k = 0xc6 then map_option (\<lambda>(n, r). (Some n, r)) (read_uint 4 bs)
      else None)"

definition read_bytes :: "byte \<Rightarrow> byte list \<Rightarrow> (byte list \<times> byte list) option" where
  "read_bytes c bs =
     (case bytesLen c bs of
        None \<Rightarrow> None
      | Some (None, r) \<Rightarrow> Some ([], r)
      | Some (Some n, r) \<Rightarrow> readN n r)"

definition DecodeString :: "byte list \<Rightarrow> (string \<times> byte list) option" where
  "DecodeString bs =
     (case bs of
        [] \<Rightarrow> None
      | c # r \<Rightarrow> map_option (\<lambda>(b, r'). (map char_of_byte b, r')) (read_bytes c r))"

text \<open>
  \<^verbatim>\<open>DecodeInterface\<close>, on the code \<open>c\<close> of the value and the bytes after it. The first
  argument of \<open>decode\<close> bounds the depth of nested maps and slices;
  \<open>DecodeInterface\<close> starts it above the length of the input, which no nesting
  exceeds. \<open>None\<close> is an error of the decoder: the input ends, or the code is not one
  of the modelled ones.
\<close>

definition isFixedNum :: "byte \<Rightarrow> bool" where
  "isFixedNum c = (unat c \<le> 0x7f \<or> 0xe0 \<le> unat c)"

definition isMapCode :: "byte \<Rightarrow> bool" where
  "isMapCode c = ((0x80 \<le> unat c \<and> unat c \<le> 0x8f) \<or> c = 0xde \<or> c = 0xdf)"

definition isArrayCode :: "byte \<Rightarrow> bool" where
  "isArrayCode c = ((0x90 \<le> unat c \<and> unat c \<le> 0x9f) \<or> c = 0xdc \<or> c = 0xdd)"

definition mapLen :: "byte \<Rightarrow> byte list \<Rightarrow> (nat \<times> byte list) option" where
  "mapLen c bs =
     (if 0x80 \<le> unat c \<and> unat c \<le> 0x8f then Some (unat c - 0x80, bs)
      else if c = 0xde then read_uint 2 bs
      else if c = 0xdf then read_uint 4 bs
      else None)"

definition arrayLen :: "byte \<Rightarrow> byte list \<Rightarrow> (nat \<times> byte list) option" where
  "arrayLen c bs =
     (if 0x90 \<le> unat c \<and> unat c \<le> 0x9f then Some (unat c - 0x90, bs)
      else if c = 0xdc then read_uint 2 bs
      else if c = 0xdd then read_uint 4 bs
      else None)"

definition decode_scalar :: "byte \<Rightarrow> byte list \<Rightarrow> (iface \<times> byte list) option" where
  "decode_scalar c bs =
     (if 0xa0 \<le> unat c \<and> unat c \<le> 0xbf then
        map_option (\<lambda>(b, r). (VString (map char_of_byte b), r)) (read_bytes c bs)
      else if c = 0xc0 then Some (VNil, bs)
      else if c = 0xc2 then Some (VBool False, bs)
      else if c = 0xc3 then Some (VBool True, bs)
      else if c = 0xcc then map_option (\<lambda>(v, r). (VUint8 (int v), r)) (read_uint 1 bs)
      else if c = 0xcd then map_option (\<lambda>(v, r). (VUint16 (int v), r)) (read_uint 2 bs)
      else if c = 0xce then map_option (\<lambda>(v, r). (VUint32 (int v), r)) (read_uint 4 bs)
      else if c = 0xcf then map_option (\<lambda>(v, r). (VUint64 (int v), r)) (read_uint 8 bs)
      else if c = 0xd0 then map_option (\<lambda>(v, r). (VInt8 v, r)) (read_int 1 bs)
      else if c = 0xd1 then map_option (\<lambda>(v, r). (VInt16 v, r)) (read_int 2 bs)
      else if c = 0xd2 then map_option (\<lambda>(v, r). (VInt32 v, r)) (read_int 4 bs)
      else if c = 0xd3 then map_option (\<lambda>(v, r). (VInt64 v, r)) (read_int 8 bs)
      else if c = 0xc4 \<or> c = 0xc5 \<or> c = 0xc6 then
        map_option (\<lambda>(b, r). (VBytes b, r)) (read_bytes c bs)
      else if c = 0xd9 \<or> c = 0xda \<or> c = 0xdb then
        map_option (\<lambda>(b, r). (VString (map char_of_byte b), r)) (read_bytes c bs)
      else None)"

fun decode :: "nat \<Rightarrow> byte list \<Rightarrow> (iface \<times> byte list) option"
and decodeMap :: "nat \<Rightarrow> nat \<Rightarrow> byte list \<Rightarrow> ((string \<times> iface) list \<times> byte list) option"
and decodeSlice :: "nat \<Rightarrow> nat \<Rightarrow> byte list \<Rightarrow> (iface list \<times> byte list) option"
where
  "decode 0 bs = None"
| "decode (Suc d) [] = None"
| "decode (Suc d) (c # bs) =
     (if isFixedNum c then Some (VInt8 (sint c), bs)
      else if isMapCode c then
        (case mapLen c bs of
           None \<Rightarrow> None
         | Some (n, r) \<Rightarrow> map_option (\<lambda>(m, r'). (VMap m, r')) (decodeMap d n r))
      else if isArrayCode c then
        (case arrayLen c bs of
           None \<Rightarrow> None
         | Some (n, r) \<Rightarrow> map_option (\<lambda>(xs, r'). (VSlice xs, r')) (decodeSlice d n r))
      else decode_scalar c bs)"
| "decodeMap d 0 bs = Some ([], bs)"
| "decodeMap d (Suc n) bs =
     (case DecodeString bs of
        None \<Rightarrow> None
      | Some (mk, r1) \<Rightarrow>
          (case decode d r1 of
             None \<Rightarrow> None
           | Some (mv, r2) \<Rightarrow>
               (case decodeMap d n r2 of
                  None \<Rightarrow> None
                | Some (m, r3) \<Rightarrow> Some ((mk, mv) # m, r3))))"
| "decodeSlice d 0 bs = Some ([], bs)"
| "decodeSlice d (Suc n) bs =
     (case decode d bs of
        None \<Rightarrow> None
      | Some (v, r1) \<Rightarrow>
          (case decodeSlice d n r1 of
             None \<Rightarrow> None
           | Some (xs, r2) \<Rightarrow> Some (v # xs, r2)))"

definition DecodeInterface :: "byte list \<Rightarrow> (iface \<times> byte list) option" where
  "DecodeInterface bs = decode (Suc (length bs)) bs"

text \<open>A successful \<open>decode\<close> consumes at least the code of the value.\<close>

lemma readN_length: "readN n bs = Some (h, r) \<Longrightarrow> length r \<le> length bs"
  by (auto simp: readN_def split: if_splits)

lemma read_uint_length: "read_uint k bs = Some (v, r) \<Longrightarrow> length r \<le> length bs"
  by (auto simp: read_uint_def split: option.splits dest: readN_length)

lemma read_int_length: "read_int k bs = Some (v, r) \<Longrightarrow> length r \<le> length bs"
  by (auto simp: read_int_def split: option.splits dest: read_uint_length)

lemma bytesLen_length: "bytesLen c bs = Some (n, r) \<Longrightarrow> length r \<le> length bs"
  by (auto simp: bytesLen_def Let_def split: if_splits dest: read_uint_length)

lemma read_bytes_length: "read_bytes c bs = Some (b, r) \<Longrightarrow> length r \<le> length bs"
  by (fastforce simp: read_bytes_def split: option.splits dest: bytesLen_length readN_length)

lemma DecodeString_length: "DecodeString bs = Some (s, r) \<Longrightarrow> length r < length bs"
  by (fastforce simp: DecodeString_def split: list.splits dest: read_bytes_length)

lemma mapLen_length: "mapLen c bs = Some (n, r) \<Longrightarrow> length r \<le> length bs"
  by (auto simp: mapLen_def split: if_splits dest: read_uint_length)

lemma arrayLen_length: "arrayLen c bs = Some (n, r) \<Longrightarrow> length r \<le> length bs"
  by (auto simp: arrayLen_def split: if_splits dest: read_uint_length)

lemma decode_scalar_length: "decode_scalar c bs = Some (v, r) \<Longrightarrow> length r \<le> length bs"
  unfolding decode_scalar_def
  by (auto split: if_splits dest: read_uint_length read_int_length read_bytes_length)

lemma decode_length:
  "(\<forall>v r. decode d bs = Some (v, r) \<longrightarrow> length r < length bs)"
  "(\<forall>m r. decodeMap d' n bs' = Some (m, r) \<longrightarrow> length r \<le> length bs')"
  "(\<forall>xs r. decodeSlice d'' n' bs'' = Some (xs, r) \<longrightarrow> length r \<le> length bs'')"
proof (induction d bs and d' n bs' and d'' n' bs'' rule: decode_decodeMap_decodeSlice.induct)
  case (3 d c bs)
  show ?case
  proof (intro allI impI)
    fix v r
    assume a: "decode (Suc d) (c # bs) = Some (v, r)"
    consider (num) "isFixedNum c"
      | (map) "\<not> isFixedNum c" "isMapCode c"
      | (arr) "\<not> isFixedNum c" "\<not> isMapCode c" "isArrayCode c"
      | (sca) "\<not> isFixedNum c" "\<not> isMapCode c" "\<not> isArrayCode c"
      by blast
    then show "length r < length (c # bs)"
    proof cases
      case num
      with a show ?thesis by simp
    next
      case map
      with a obtain n r0 m where l: "mapLen c bs = Some (n, r0)"
        and m: "decodeMap d n r0 = Some (m, r)"
        by (auto split: option.splits)
      from 3(1) [OF map l] m have "length r \<le> length r0" by blast
      with mapLen_length [OF l] show ?thesis by simp
    next
      case arr
      with a obtain n r0 xs where l: "arrayLen c bs = Some (n, r0)"
        and m: "decodeSlice d n r0 = Some (xs, r)"
        by (auto split: option.splits)
      from 3(2) [OF arr l] m have "length r \<le> length r0" by blast
      with arrayLen_length [OF l] show ?thesis by simp
    next
      case sca
      with a have "decode_scalar c bs = Some (v, r)" by simp
      from decode_scalar_length [OF this] show ?thesis by simp
    qed
  qed
next
  case (5 d n bs)
  show ?case
  proof (intro allI impI)
    fix m r
    assume a: "decodeMap d (Suc n) bs = Some (m, r)"
    then obtain mk r1 mv r2 m' where s: "DecodeString bs = Some (mk, r1)"
      and v: "decode d r1 = Some (mv, r2)" and t: "decodeMap d n r2 = Some (m', r)"
      by (auto split: option.splits)
    from 5(1) [OF s refl] v have "length r2 < length r1" by blast
    moreover from 5(2) [OF s refl v refl] t have "length r \<le> length r2" by blast
    ultimately show "length r \<le> length bs"
      using DecodeString_length [OF s] by simp
  qed
next
  case (7 d n bs)
  show ?case
  proof (intro allI impI)
    fix xs r
    assume a: "decodeSlice d (Suc n) bs = Some (xs, r)"
    then obtain v r1 xs' where v: "decode d bs = Some (v, r1)"
      and t: "decodeSlice d n r1 = Some (xs', r)"
      by (auto split: option.splits)
    from 7(1) v have "length r1 < length bs" by blast
    moreover from 7(2) [OF v refl] t have "length r \<le> length r1" by blast
    ultimately show "length r \<le> length bs" by simp
  qed
qed simp_all

text \<open>
  The bound on the depth never cuts a result short: any bound above the length of the
  input gives the result of \<open>DecodeInterface\<close>.
\<close>

lemma decode_fuel:
  "\<forall>d2. length bs < d \<and> length bs < d2 \<longrightarrow> decode d bs = decode d2 bs"
  "\<forall>d2. length bs' < d' \<and> length bs' < d2 \<longrightarrow> decodeMap d' n bs' = decodeMap d2 n bs'"
  "\<forall>d2. length bs'' < d'' \<and> length bs'' < d2 \<longrightarrow> decodeSlice d'' n' bs'' = decodeSlice d2 n' bs''"
proof (induction d bs and d' n bs' and d'' n' bs'' rule: decode_decodeMap_decodeSlice.induct)
  case (1 bs)
  show ?case by simp
next
  case (2 d)
  show ?case
  proof (intro allI impI)
    fix d2 assume "length ([] :: byte list) < Suc d \<and> length ([] :: byte list) < d2"
    then obtain e where "d2 = Suc e" by (cases d2) auto
    then show "decode (Suc d) [] = decode d2 []" by simp
  qed
next
  case (3 d c bs)
  show ?case
  proof (intro allI impI)
    fix d2 assume a: "length (c # bs) < Suc d \<and> length (c # bs) < d2"
    then obtain e where d2: "d2 = Suc e" by (cases d2) auto
    with a have l: "length bs < d" "length bs < e" by simp_all
    consider (num) "isFixedNum c"
      | (map) "\<not> isFixedNum c" "isMapCode c"
      | (arr) "\<not> isFixedNum c" "\<not> isMapCode c" "isArrayCode c"
      | (sca) "\<not> isFixedNum c" "\<not> isMapCode c" "\<not> isArrayCode c"
      by blast
    then show "decode (Suc d) (c # bs) = decode d2 (c # bs)"
    proof cases
      case num
      then show ?thesis by (simp add: d2)
    next
      case map
      show ?thesis
      proof (cases "mapLen c bs")
        case None
        with map show ?thesis by (simp add: d2)
      next
        case (Some p)
        then obtain k r where p: "mapLen c bs = Some (k, r)" by (cases p) auto
        from mapLen_length [OF p] l have "length r < d" "length r < e" by simp_all
        with 3(1) [OF map p] have "decodeMap d k r = decodeMap e k r" by blast
        with map p show ?thesis by (simp add: d2)
      qed
    next
      case arr
      show ?thesis
      proof (cases "arrayLen c bs")
        case None
        with arr show ?thesis by (simp add: d2)
      next
        case (Some p)
        then obtain k r where p: "arrayLen c bs = Some (k, r)" by (cases p) auto
        from arrayLen_length [OF p] l have "length r < d" "length r < e" by simp_all
        with 3(2) [OF arr p] have "decodeSlice d k r = decodeSlice e k r" by blast
        with arr p show ?thesis by (simp add: d2)
      qed
    next
      case sca
      then show ?thesis by (simp add: d2)
    qed
  qed
next
  case (4 d bs)
  show ?case by simp
next
  case (5 d n bs)
  show ?case
  proof (intro allI impI)
    fix d2 assume a: "length bs < d \<and> length bs < d2"
    show "decodeMap d (Suc n) bs = decodeMap d2 (Suc n) bs"
    proof (cases "DecodeString bs")
      case None
      then show ?thesis by simp
    next
      case (Some p)
      then obtain mk r1 where s: "DecodeString bs = Some (mk, r1)" by (cases p) auto
      from DecodeString_length [OF s] a have l1: "length r1 < d" "length r1 < d2" by simp_all
      with 5(1) [OF s refl] have e1: "decode d r1 = decode d2 r1" by blast
      show ?thesis
      proof (cases "decode d r1")
        case None
        with e1 s show ?thesis by simp
      next
        case (Some q)
        then obtain mv r2 where v: "decode d r1 = Some (mv, r2)" by (cases q) auto
        from decode_length(1) v have "length r2 < length r1" by blast
        with l1 have "length r2 < d" "length r2 < d2" by simp_all
        with 5(2) [OF s refl v refl] have "decodeMap d n r2 = decodeMap d2 n r2" by blast
        with s v e1 show ?thesis by simp
      qed
    qed
  qed
next
  case (6 d bs)
  show ?case by simp
next
  case (7 d n bs)
  show ?case
  proof (intro allI impI)
    fix d2 assume a: "length bs < d \<and> length bs < d2"
    with 7(1) have e1: "decode d bs = decode d2 bs" by blast
    show "decodeSlice d (Suc n) bs = decodeSlice d2 (Suc n) bs"
    proof (cases "decode d bs")
      case None
      with e1 show ?thesis by simp
    next
      case (Some q)
      then obtain v r1 where v: "decode d bs = Some (v, r1)" by (cases q) auto
      from decode_length(1) v have "length r1 < length bs" by blast
      with a have "length r1 < d" "length r1 < d2" by simp_all
      with 7(2) [OF v refl] have "decodeSlice d n r1 = decodeSlice d2 n r1" by blast
      with v e1 show ?thesis by simp
    qed
  qed
qed

lemma DecodeInterface_fuel: "length bs < d \<Longrightarrow> decode d bs = DecodeInterface bs"
  using decode_fuel(1) [rule_format, of bs d "Suc (length bs)"] by (simp add: DecodeInterface_def)

text \<open>
  The values that successive calls of \<^verbatim>\<open>DecodeInterface\<close> on one reader return, up
  to the first error.
\<close>

function decode_all :: "byte list \<Rightarrow> iface list" where
  "decode_all bs =
     (case DecodeInterface bs of
        None \<Rightarrow> []
      | Some (v, rest) \<Rightarrow> v # decode_all rest)"
  by pat_completeness auto
termination
  by (relation "measure length") (auto simp: DecodeInterface_def decode_length(1))

declare decode_all.simps [simp del]

subsection \<open>The consumer \<^verbatim>\<open>plex\<close> (lines 89-104)\<close>

text \<open>
  \<open>ch\<close> is the sequence of records offered on the channel, in the order they are
  received; \<open>f\<close> is the list of the arguments of the calls \<^verbatim>\<open>f.Write(out)\<close> made so
  far. The result says also whether \<^verbatim>\<open>finished <- true\<close> was sent. When the channel
  has nothing more to offer, the receive of line 92 blocks and nothing is sent on
  \<^verbatim>\<open>finished\<close>.
\<close>

fun plex :: "BufRecord list \<Rightarrow> byte list list \<Rightarrow> byte list list \<times> bool" where
  "plex [] f = (f, False)"
| "plex (rec # ch) f =
     (case Marshal rec of
        Some out \<Rightarrow>
          (if Id' rec = 127 then (f @ [out], True) else plex ch (f @ [out]))
      | None \<Rightarrow> plex ch f)"

subsection \<open>Capture (lines 171-239)\<close>

text \<open>
  The child process, as the program sees it. Either \<^verbatim>\<open>cmd.Start()\<close> fails with a
  message; then the pipes deliver nothing and \<^verbatim>\<open>cmd.Wait()\<close> returns an error that is
  not an \<^verbatim>\<open>*exec.ExitError\<close>. Or the child runs: \<^verbatim>\<open>io.Copy\<close> hands the chunks read from
  the two pipes to the two \<^verbatim>\<open>MultiWriter\<close>s, and \<^verbatim>\<open>cmd.Wait()\<close> returns no error, an
  \<^verbatim>\<open>*exec.ExitError\<close> (whose \<^verbatim>\<open>Sys()\<close> is a \<^verbatim>\<open>syscall.WaitStatus\<close> with the given
  \<^verbatim>\<open>ExitStatus()\<close>, or is not one), or another error. An event is a chunk: the pipe it
  was read from, the value of \<^verbatim>\<open>time.Now()\<close> in \<open>Write\<close>, and the bytes. The events
  are listed in the order in which their records reach the channel, all of them before
  the record of the exit code.
\<close>

datatype pipe = StdoutPipe | StderrPipe

type_synonym event = "pipe \<times> int \<times> byte list"

datatype wait_error = NoError | ExitError "int option" | OtherError

datatype child = StartFails string | Runs "event list" wait_error

definition Wait :: "child \<Rightarrow> wait_error" where
  "Wait c = (case c of StartFails er \<Rightarrow> OtherError | Runs es w \<Rightarrow> w)"

text \<open>
  The two copying goroutines of lines 205-212 with the writers of lines 188-189: every
  chunk goes to the \<open>Timestamped\<close> writer of its stream first, which sends a record to
  the channel, and to the stream of the process next.
\<close>

fun copy_events :: "Timestamped \<Rightarrow> Timestamped \<Rightarrow> event list \<Rightarrow> (BufRecord \<times> effect) list" where
  "copy_events so se [] = []"
| "copy_events so se ((StdoutPipe, tn, d) # es) =
     (case Write so tn d of (so', rec, n) \<Rightarrow> (rec, Stdout d) # copy_events so' se es)"
| "copy_events so se ((StderrPipe, tn, d) # es) =
     (case Write se tn d of (se', rec, n) \<Rightarrow> (rec, Stderr d) # copy_events so se' es)"

text \<open>
  What a run leaves behind: how it ended, what it wrote to the streams of the process,
  the records sent on the channel, the arguments of the calls of \<^verbatim>\<open>f.Write\<close> in
  \<open>plex\<close>, and the content of the entry file under its name afterwards (\<open>None\<close>
  when there is no such file).
\<close>

record session =
  result :: outcome
  console :: "effect list"
  channel :: "BufRecord list"
  sink :: "byte list list"
  entry :: "byte list option"

text \<open>
  The capture branch. \<open>old\<close> is the entry before the run and \<open>created\<close> says whether
  \<^verbatim>\<open>os.Create(location)\<close> succeeded (its error is discarded, and so are the errors of
  the writes to a file that was not created). \<open>now1\<close> and \<open>now2\<close> are the times of
  the two calls of \<open>OpenTS\<close>. \<^verbatim>\<open>os.Remove(location)\<close> removes the name; the writes
  that follow go to the open file, which no name refers to any more.
\<close>

definition capture :: "bool \<Rightarrow> byte list option \<Rightarrow> bool \<Rightarrow> int \<Rightarrow> int \<Rightarrow> child \<Rightarrow> session" where
  "capture keepNeg old created now1 now2 c =
     (let entry0 = (if created then Some [] else old);
          stdout = OpenTS now1 1;
          stderr = OpenTS now2 2;
          (entry1, msg) =
            (case c of
               StartFails er \<Rightarrow>
                 (None,
                  [Stderr (map byte_of_char
                     (''cmd.Start() failed with '' @ [CHR 0x27] @ er @ [CHR 0x27, CHR 0x0A]))])
             | Runs es w \<Rightarrow> (entry0, []));
          copied = (case c of StartFails er \<Rightarrow> [] | Runs es w \<Rightarrow> copy_events stdout stderr es);
          er = Wait c;
          exitCode = (case er of ExitError (Some status) \<Rightarrow> status | _ \<Rightarrow> 0);
          entry2 = (case er of ExitError sys \<Rightarrow> if \<not> keepNeg then None else entry1 | _ \<Rightarrow> entry1);
          ch = map fst copied @ [\<lparr>T = 0, Id' = 127, Buf = [word_of_int exitCode]\<rparr>];
          (written, finished) = plex ch []
      in \<lparr>result = (if finished then Exit exitCode else Blocked),
          console = msg @ map snd copied,
          channel = ch,
          sink = written,
          entry = (case entry2 of
                     None \<Rightarrow> None
                   | Some e \<Rightarrow> if created then Some (concat written) else Some e)\<rparr>)"

subsection \<open>The program (lines 133-239)\<close>

text \<open>
  The replay branch. \<open>readable\<close> says whether \<^verbatim>\<open>os.Open\<close> and \<^verbatim>\<open>gzip.NewReader\<close>
  succeeded. Their errors are discarded: after a failure \<^verbatim>\<open>gz\<close> is a nil pointer, and
  the first read through it is a nil dereference.
\<close>

definition replay :: "bool \<Rightarrow> bool \<Rightarrow> byte list \<Rightarrow> session" where
  "replay delay readable content =
     (if readable then
        (case replay_loop delay (decode_all content) 0 [] of
           (r, out) \<Rightarrow>
             \<lparr>result = r, console = out, channel = [], sink = [], entry = Some content\<rparr>)
      else \<lparr>result = Crash, console = [], channel = [], sink = [], entry = Some content\<rparr>)"

text \<open>
  \<^verbatim>\<open>main\<close> from line 133 on, after the flags are parsed and the name of the entry is
  computed. \<open>old\<close> is the entry under that name: its modification time and content.
\<close>

definition main ::
  "int \<Rightarrow> bool \<Rightarrow> bool \<Rightarrow> int \<Rightarrow> (int \<times> byte list) option \<Rightarrow> bool \<Rightarrow> bool \<Rightarrow> int \<Rightarrow> int \<Rightarrow> child
   \<Rightarrow> session" where
  "main ttl delay keepNeg now old readable created now1 now2 c =
     (case old of
        None \<Rightarrow> capture keepNeg None created now1 now2 c
      | Some (modTime, content) \<Rightarrow>
          if fresh (Some modTime) ttl now then replay delay readable content
          else capture keepNeg (Some content) created now1 now2 c)"

subsection \<open>The goroutines of the capture branch (lines 182-238)\<close>

text \<open>
  \<open>capture\<close> takes the order in which the records reach the channel as given. The
  machine below has the goroutines themselves, as they stand after line 212:
  \<^verbatim>\<open>main\<close>, \<open>plex\<close> and the two copiers. The channels \<^verbatim>\<open>ch\<close> and \<^verbatim>\<open>finished\<close> are
  unbuffered (lines 182-183): a send and its receive are one step, taken when both
  goroutines are at it, and each of the two waits for the other.

  \<^verbatim>\<open>main\<close> is at \<^verbatim>\<open>cmd.Wait()\<close> (line 215), at the send of line 234 with its exit code,
  at the receive of line 236, or past it at \<^verbatim>\<open>panic(Exit{exitCode})\<close>, from where the
  deferred calls run and \<^verbatim>\<open>handleExit\<close> ends the process. \<open>plex\<close> is at the receive of line 92, holds the record it has received
  (lines 93-97), is at the send of line 99, or has returned. A copier is in \<^verbatim>\<open>io.Copy\<close>
  between two chunks, in \<open>Write\<close> at the send of line 64 with its record, or back in
  the \<^verbatim>\<open>MultiWriter\<close> at the write of the chunk to the stream of the process.
\<close>

datatype main_pc = AtWait | AtSend int | AtReceive int | Exited int

datatype plex_pc = Receiving | Got BufRecord | Signalling | Returned

datatype copy_pc = Reading | Sending BufRecord "byte list" | Teeing "byte list"

text \<open>
  A copier: where it is, its \<open>Timestamped\<close> writer, and the chunks that \<^verbatim>\<open>io.Copy\<close> has
  still to read from the pipe, each with the value of \<^verbatim>\<open>time.Now()\<close> in its \<open>Write\<close>.
\<close>

record copier =
  copy_at :: copy_pc
  writer :: Timestamped
  pending :: "(int \<times> byte list) list"

text \<open>
  The state: the four goroutines, the records that \<open>plex\<close> has received so far, the
  arguments of its calls \<^verbatim>\<open>f.Write(out)\<close>, the writes to the streams of the process,
  and whether \<^verbatim>\<open>os.Remove(location)\<close> of line 229 was called.
\<close>

record goroutines =
  main_at :: main_pc
  plex_at :: plex_pc
  copy_out :: copier
  copy_err :: copier
  received :: "BufRecord list"
  wrote :: "byte list list"
  shown :: "effect list"
  removed :: bool

definition copier_of :: "pipe \<Rightarrow> goroutines \<Rightarrow> copier" where
  "copier_of p g = (case p of StdoutPipe \<Rightarrow> copy_out g | StderrPipe \<Rightarrow> copy_err g)"

definition with_copier :: "pipe \<Rightarrow> copier \<Rightarrow> goroutines \<Rightarrow> goroutines" where
  "with_copier p c g =
     (case p of StdoutPipe \<Rightarrow> g\<lparr>copy_out := c\<rparr> | StderrPipe \<Rightarrow> g\<lparr>copy_err := c\<rparr>)"

definition stream_of :: "pipe \<Rightarrow> byte list \<Rightarrow> effect" where
  "stream_of p d = (case p of StdoutPipe \<Rightarrow> Stdout d | StderrPipe \<Rightarrow> Stderr d)"

text \<open>
  The steps. \<open>DoWait\<close>: \<^verbatim>\<open>cmd.Wait()\<close> returns and \<^verbatim>\<open>main\<close> goes through lines 216-231.
  \<open>SendExit\<close>: the send of line 234 with the receive of line 92. \<open>PlexWrite\<close>: lines
  93-102, ending at the send of line 99 for a record tagged 127 and back at the receive of
  line 92 otherwise. \<open>Finish\<close>: the send of line 99 with the receive of line 236.
  \<open>CopyRead\<close>: \<^verbatim>\<open>io.Copy\<close> reads a chunk and \<open>Write\<close> runs up to its send (lines
  57-63). \<open>CopySend\<close>: the send of line 64 with the receive of line 92. \<open>CopyTee\<close>:
  \<open>Write\<close> has returned and the \<^verbatim>\<open>MultiWriter\<close> of lines 188-189 writes the chunk to
  its second writer. The result is \<open>None\<close> when the step cannot be taken in the state.
\<close>

datatype action =
  DoWait | SendExit | PlexWrite | Finish | CopyRead pipe | CopySend pipe | CopyTee pipe

fun step :: "bool \<Rightarrow> wait_error \<Rightarrow> goroutines \<Rightarrow> action \<Rightarrow> goroutines option" where
  "step keepNeg er g DoWait =
     (case main_at g of
        AtWait \<Rightarrow>
          (let exitCode = (case er of ExitError (Some status) \<Rightarrow> status | _ \<Rightarrow> 0);
               remove = (case er of ExitError sys \<Rightarrow> \<not> keepNeg | _ \<Rightarrow> False)
           in Some (g\<lparr>main_at := AtSend exitCode, removed := removed g \<or> remove\<rparr>))
      | _ \<Rightarrow> None)"
| "step keepNeg er g SendExit =
     (case main_at g of
        AtSend exitCode \<Rightarrow>
          (case plex_at g of
             Receiving \<Rightarrow>
               (let rec = \<lparr>T = 0, Id' = 127, Buf = [word_of_int exitCode]\<rparr>
                in Some (g\<lparr>main_at := AtReceive exitCode, plex_at := Got rec,
                           received := received g @ [rec]\<rparr>))
           | _ \<Rightarrow> None)
      | _ \<Rightarrow> None)"
| "step keepNeg er g PlexWrite =
     (case plex_at g of
        Got rec \<Rightarrow>
          (case Marshal rec of
             Some out \<Rightarrow>
               Some (g\<lparr>wrote := wrote g @ [out],
                       plex_at := (if Id' rec = 127 then Signalling else Receiving)\<rparr>)
           | None \<Rightarrow> Some (g\<lparr>plex_at := Receiving\<rparr>))
      | _ \<Rightarrow> None)"
| "step keepNeg er g Finish =
     (case plex_at g of
        Signalling \<Rightarrow>
          (case main_at g of
             AtReceive exitCode \<Rightarrow> Some (g\<lparr>main_at := Exited exitCode, plex_at := Returned\<rparr>)
           | _ \<Rightarrow> None)
      | _ \<Rightarrow> None)"
| "step keepNeg er g (CopyRead p) =
     (let c = copier_of p g
      in case copy_at c of
           Reading \<Rightarrow>
             (case pending c of
                [] \<Rightarrow> None
              | (tn, d) # rest \<Rightarrow>
                  (case Write (writer c) tn d of
                     (ts, rec, n) \<Rightarrow>
                       Some (with_copier p
                               \<lparr>copy_at = Sending rec d, writer = ts, pending = rest\<rparr> g)))
         | _ \<Rightarrow> None)"
| "step keepNeg er g (CopySend p) =
     (let c = copier_of p g
      in case copy_at c of
           Sending rec d \<Rightarrow>
             (case plex_at g of
                Receiving \<Rightarrow>
                  Some ((with_copier p (c\<lparr>copy_at := Teeing d\<rparr>) g)
                          \<lparr>plex_at := Got rec, received := received g @ [rec]\<rparr>)
              | _ \<Rightarrow> None)
         | _ \<Rightarrow> None)"
| "step keepNeg er g (CopyTee p) =
     (let c = copier_of p g
      in case copy_at c of
           Teeing d \<Rightarrow>
             Some ((with_copier p (c\<lparr>copy_at := Reading\<rparr>) g)
                     \<lparr>shown := shown g @ [stream_of p d]\<rparr>)
         | _ \<Rightarrow> None)"

text \<open>
  A schedule is the list of the steps in the order in which they are taken; \<open>run\<close> is
  \<open>None\<close> for a schedule that asks for a step that cannot be taken.
\<close>

fun run :: "bool \<Rightarrow> wait_error \<Rightarrow> goroutines \<Rightarrow> action list \<Rightarrow> goroutines option" where
  "run keepNeg er g [] = Some g"
| "run keepNeg er g (a # as) =
     (case step keepNeg er g a of
        None \<Rightarrow> None
      | Some g' \<Rightarrow> run keepNeg er g' as)"

text \<open>
  The state after line 212, for a child that ran: the chunks of the events are in the two
  pipes, and \<open>now1\<close> and \<open>now2\<close> are the times of the two calls of \<open>OpenTS\<close>.
\<close>

definition chunks :: "pipe \<Rightarrow> event list \<Rightarrow> (int \<times> byte list) list" where
  "chunks p es = map snd (filter (\<lambda>e. fst e = p) es)"

definition start :: "int \<Rightarrow> int \<Rightarrow> event list \<Rightarrow> goroutines" where
  "start now1 now2 es =
     \<lparr>main_at = AtWait, plex_at = Receiving,
      copy_out = \<lparr>copy_at = Reading, writer = OpenTS now1 1, pending = chunks StdoutPipe es\<rparr>,
      copy_err = \<lparr>copy_at = Reading, writer = OpenTS now2 2, pending = chunks StderrPipe es\<rparr>,
      received = [], wrote = [], shown = [], removed = False\<rparr>"

text \<open>
  The schedule that \<open>capture\<close> describes: every chunk is read, sent, written to the
  entry and to the stream of the process, in the order of the events, before
  \<^verbatim>\<open>cmd.Wait()\<close> returns.
\<close>

definition in_order :: "event list \<Rightarrow> action list" where
  "in_order es =
     concat (map (\<lambda>e. [CopyRead (fst e), CopySend (fst e), PlexWrite, CopyTee (fst e)]) es)
     @ [DoWait, SendExit, PlexWrite, Finish]"

subsection \<open>Views of the model used in the statements\<close>

text \<open>
  The three reads of lines 146-151 on a decoded value: \<^verbatim>\<open>DurationOf(rec["T"])\<close>,
  \<^verbatim>\<open>rec["Id"].(int8)\<close> and \<^verbatim>\<open>rec["Buf"].([]byte)\<close>; \<open>None\<close> when a type assertion
  panics.
\<close>

definition fields :: "iface \<Rightarrow> (int \<times> int \<times> byte list) option" where
  "fields i =
     (case i of
        VMap rec \<Rightarrow>
          (case index rec ''Id'' of
             VInt8 n \<Rightarrow>
               (case index rec ''Buf'' of
                  VBytes buf \<Rightarrow> Some (DurationOf (index rec ''T''), n, buf)
                | _ \<Rightarrow> None)
           | _ \<Rightarrow> None)
      | _ \<Rightarrow> None)"

text \<open>A decoded value that the loop processes without a panic.\<close>

definition record_ok :: "iface \<Rightarrow> bool" where
  "record_ok i =
     (case fields i of
        None \<Rightarrow> False
      | Some (t, n, buf) \<Rightarrow> n = 127 \<longrightarrow> buf \<noteq> [])"

text \<open>What the loop does to the outside for one decoded value.\<close>

definition emitted :: "bool \<Rightarrow> iface \<Rightarrow> effect list" where
  "emitted delay i =
     (case fields i of
        None \<Rightarrow> []
      | Some (t, n, buf) \<Rightarrow>
          (if delay then [Sleep t] else [])
          @ (if n = 1 then [Stdout buf] else if n = 2 then [Stderr buf] else []))"

text \<open>
  The exit code that a decoded value carries, when it is tagged 127, and the exit code of
  the last such value of a sequence (0 when there is none).
\<close>

definition exit_code_of :: "iface \<Rightarrow> int option" where
  "exit_code_of i =
     (case fields i of
        Some (t, n, b # bs) \<Rightarrow> if n = 127 then Some (uint b) else None
      | _ \<Rightarrow> None)"

definition last_exit_code :: "iface list \<Rightarrow> int" where
  "last_exit_code vals = last (0 # List.map_filter exit_code_of vals)"

text \<open>The write to the stream of the process that an event of the child leads to.\<close>

definition tee :: "event \<Rightarrow> effect" where
  "tee e = (case e of (StdoutPipe, tn, d) \<Rightarrow> Stdout d | (StderrPipe, tn, d) \<Rightarrow> Stderr d)"

text \<open>The record of line 234, and the exit code of lines 216-226.\<close>

definition exit_record :: "int \<Rightarrow> BufRecord" where
  "exit_record exitCode = \<lparr>T = 0, Id' = 127, Buf = [word_of_int exitCode]\<rparr>"

definition exit_status :: "wait_error \<Rightarrow> int" where
  "exit_status er = (case er of ExitError (Some status) \<Rightarrow> status | _ \<Rightarrow> 0)"

text \<open>
  The value that the decoder returns for an encoded integer and for an encoded record,
  and the records whose fields are in range: Go's \<^verbatim>\<open>int\<close> has 64 bits, and the length
  of a byte slice is written in at most 32 bits.
\<close>

definition int_value :: "int \<Rightarrow> iface" where
  "int_value n =
     (if 0 \<le> n then
        (if n \<le> 127 then VInt8 n
         else if n \<le> 255 then VUint8 n
         else if n \<le> 65535 then VUint16 n
         else if n \<le> 4294967295 then VUint32 n
         else VUint64 n)
      else
        (if - 128 \<le> n then VInt8 n
         else if - 32768 \<le> n then VInt16 n
         else if - 2147483648 \<le> n then VInt32 n
         else VInt64 n))"

definition record_value :: "BufRecord \<Rightarrow> iface" where
  "record_value r =
     VMap [(''T'', int_value (T r)), (''Id'', int_value (Id' r)), (''Buf'', VBytes (Buf r))]"

definition valid_record :: "BufRecord \<Rightarrow> bool" where
  "valid_record r =
     (- (2 ^ 63) \<le> T r \<and> T r < 2 ^ 63 \<and> - (2 ^ 63) \<le> Id' r \<and> Id' r < 2 ^ 63
      \<and> length (Buf r) < 2 ^ 32)"

text \<open>
  What holds of the goroutines in every state they reach. \<open>plex\<close> has written the
  encoding of every record it received, but of the one it holds. While \<^verbatim>\<open>main\<close> has not
  sent its record, \<open>plex\<close> has received records tagged 1 or 2 only and is at its
  receive or holds a record. Once \<^verbatim>\<open>main\<close> has sent it, the record of the exit code is
  the last one received.
\<close>

definition in_step :: "goroutines \<Rightarrow> bool" where
  "in_step g =
     (case plex_at g of
        Got rec \<Rightarrow>
          received g \<noteq> [] \<and> last (received g) = rec
          \<and> wrote g = map (\<lambda>r. the (Marshal r)) (butlast (received g))
      | _ \<Rightarrow> wrote g = map (\<lambda>r. the (Marshal r)) (received g))"

definition copying :: "goroutines \<Rightarrow> bool" where
  "copying g =
     ((\<forall>r\<in>set (received g). Id' r = 1 \<or> Id' r = 2)
      \<and> (case plex_at g of Receiving \<Rightarrow> True | Got rec \<Rightarrow> True | _ \<Rightarrow> False))"

definition ended :: "int \<Rightarrow> goroutines \<Rightarrow> bool" where
  "ended c g =
     (received g \<noteq> [] \<and> last (received g) = exit_record c
      \<and> (\<forall>r\<in>set (butlast (received g)). Id' r = 1 \<or> Id' r = 2))"

definition sound :: "wait_error \<Rightarrow> goroutines \<Rightarrow> bool" where
  "sound er g =
     (ts_id (writer (copy_out g)) = 1 \<and> ts_id (writer (copy_err g)) = 2
      \<and> (case copy_at (copy_out g) of Sending rec d \<Rightarrow> Id' rec = 1 | _ \<Rightarrow> True)
      \<and> (case copy_at (copy_err g) of Sending rec d \<Rightarrow> Id' rec = 2 | _ \<Rightarrow> True)
      \<and> in_step g
      \<and> (case main_at g of
           AtWait \<Rightarrow> copying g
         | AtSend c \<Rightarrow> c = exit_status er \<and> copying g
         | AtReceive c \<Rightarrow>
             c = exit_status er \<and> ended c g
             \<and> (plex_at g = Got (exit_record c) \<or> plex_at g = Signalling)
         | Exited c \<Rightarrow> c = exit_status er \<and> ended c g \<and> plex_at g = Returned))"

text \<open>A bound on the number of steps that the goroutines can still take.\<close>

definition copier_left :: "copier \<Rightarrow> nat" where
  "copier_left c =
     4 * length (pending c)
     + (case copy_at c of Reading \<Rightarrow> 0 | Sending rec d \<Rightarrow> 3 | Teeing d \<Rightarrow> 1)"

definition steps_left :: "goroutines \<Rightarrow> nat" where
  "steps_left g =
     (case main_at g of AtWait \<Rightarrow> 6 | AtSend c \<Rightarrow> 4 | AtReceive c \<Rightarrow> 2 | Exited c \<Rightarrow> 0)
     + (case plex_at g of Got rec \<Rightarrow> 1 | _ \<Rightarrow> 0)
     + copier_left (copy_out g) + copier_left (copy_err g)"

section \<open>Lemmas\<close>

subsection \<open>The replay loop\<close>

lemma replay_loop_no_fields:
  assumes "fields i = None"
  shows "replay_loop delay (i # rest) e out = (Crash, out)"
proof (cases i)
  case (VMap rec)
  show ?thesis
  proof (cases "index rec ''Id''")
    case (VInt8 n)
    with assms VMap have "\<forall>buf. index rec ''Buf'' \<noteq> VBytes buf"
      by (auto simp: fields_def)
    then show ?thesis
      using VMap VInt8 by (cases "index rec ''Buf''") simp_all
  qed (simp_all add: VMap)
qed simp_all

lemma replay_loop_fields:
  assumes "fields i = Some (t, n, buf)"
  shows "replay_loop delay (i # rest) e out =
     (let out1 = (if delay then out @ [Sleep t] else out)
      in if n = 1 then replay_loop delay rest e (out1 @ [Stdout buf])
         else if n = 2 then replay_loop delay rest e (out1 @ [Stderr buf])
         else if n = 127 then
           (case buf of [] \<Rightarrow> (Crash, out1) | b # _ \<Rightarrow> replay_loop delay rest (uint b) out1)
         else replay_loop delay rest e out1)"
proof -
  from assms obtain rec where "i = VMap rec" "index rec ''Id'' = VInt8 n"
    "index rec ''Buf'' = VBytes buf" "t = DurationOf (index rec ''T'')"
    by (auto simp: fields_def split: iface.split_asm)
  then show ?thesis by simp
qed

declare replay_loop.simps(2) [simp del]

lemma replay_loop_ok:
  "\<forall>v\<in>set vals. record_ok v \<Longrightarrow>
   replay_loop delay vals e out =
     (Exit (last (e # List.map_filter exit_code_of vals)), out @ concat (map (emitted delay) vals))"
proof (induction vals arbitrary: e out)
  case Nil
  then show ?case by (simp add: List.map_filter_simps)
next
  case (Cons v vals)
  from Cons.prems have ok: "record_ok v" and rest: "\<forall>v\<in>set vals. record_ok v" by simp_all
  from ok obtain t n buf where f: "fields v = Some (t, n, buf)" and ne: "n = 127 \<longrightarrow> buf \<noteq> []"
    by (auto simp: record_ok_def split: option.splits)
  note step = replay_loop_fields [OF f] and IH = Cons.IH [OF rest]
  show ?case
  proof (cases "n = 127")
    case True
    with ne obtain b0 bs where buf: "buf = b0 # bs" by (cases buf) auto
    show ?thesis
      by (simp add: step IH True buf f List.map_filter_simps exit_code_of_def emitted_def)
  next
    case False
    have x: "exit_code_of v = None"
      using False f by (simp add: exit_code_of_def split: list.splits)
    show ?thesis
      by (simp add: step IH False x f List.map_filter_simps emitted_def Let_def)
  qed
qed

lemma replay_loop_crash:
  "\<not> (\<forall>v\<in>set vals. record_ok v) \<Longrightarrow> fst (replay_loop delay vals e out) = Crash"
proof (induction vals arbitrary: e out)
  case Nil
  then show ?case by simp
next
  case (Cons v vals)
  show ?case
  proof (cases "fields v")
    case None
    then show ?thesis by (simp add: replay_loop_no_fields)
  next
    case (Some f)
    then obtain t n buf where f: "fields v = Some (t, n, buf)" by (cases f) auto
    note step = replay_loop_fields [OF f]
    show ?thesis
    proof (cases "record_ok v")
      case False
      with f have "n = 127" "buf = []" by (simp_all add: record_ok_def)
      then show ?thesis by (simp add: step)
    next
      case True
      with Cons.prems have rest: "\<not> (\<forall>v\<in>set vals. record_ok v)" by simp
      from True f have ne: "n = 127 \<longrightarrow> buf \<noteq> []" by (simp add: record_ok_def)
      show ?thesis
        using ne Cons.IH [OF rest]
        by (cases buf) (simp_all add: step Let_def)
    qed
  qed
qed

subsection \<open>The consumer and the capture\<close>

lemma Marshal_the: "Marshal r = Some (the (Marshal r))"
  by (simp add: Marshal_def)

lemma plex_upto_exit:
  assumes "\<forall>r\<in>set pre. Id' r \<noteq> 127" and "Id' ex = 127"
  shows "plex (pre @ ex # post) f = (f @ map (\<lambda>r. the (Marshal r)) (pre @ [ex]), True)"
  using assms(1)
proof (induction pre arbitrary: f)
  case Nil
  obtain out where "Marshal ex = Some out" by (simp add: Marshal_def)
  with assms(2) show ?case by simp
next
  case (Cons r pre)
  obtain out where "Marshal r = Some out" by (simp add: Marshal_def)
  with Cons show ?case by simp
qed

lemma Write_id: "Write ts tn d = (ts', rec, n) \<Longrightarrow> ts_id ts' = ts_id ts \<and> Id' rec = ts_id ts \<and> Buf rec = d"
  by (auto simp: Write_def Let_def)

lemma copy_events_ids:
  "\<forall>x\<in>set (copy_events so se es). Id' (fst x) = ts_id so \<or> Id' (fst x) = ts_id se"
proof (induction so se es rule: copy_events.induct)
  case (1 so se)
  show ?case by simp
next
  case (2 so se tn d es)
  obtain so' rec n where w: "Write so tn d = (so', rec, n)" by (cases "Write so tn d") auto
  with 2 [OF w [symmetric] refl] Write_id [OF w] show ?case by auto
next
  case (3 so se tn d es)
  obtain se' rec n where w: "Write se tn d = (se', rec, n)" by (cases "Write se tn d") auto
  with 3 [OF w [symmetric] refl] Write_id [OF w] show ?case by auto
qed

lemma copy_events_console:
  "map snd (copy_events so se es) = map tee es"
  by (induction so se es rule: copy_events.induct) (auto simp: tee_def split: prod.splits)

lemma copy_events_payloads:
  "map (\<lambda>x. Buf (fst x)) (copy_events so se es) = map (\<lambda>e. snd (snd e)) es"
  by (induction so se es rule: copy_events.induct) (auto simp: Write_def Let_def split: prod.splits)

lemma capture_Runs:
  "capture keepNeg old created now1 now2 (Runs es w) =
     (let recs = map fst (copy_events (OpenTS now1 1) (OpenTS now2 2) es);
          ch = recs @ [exit_record (exit_status w)];
          written = map (\<lambda>r. the (Marshal r)) ch
      in \<lparr>result = Exit (exit_status w),
          console = map tee es,
          channel = ch,
          sink = written,
          entry = (if (\<exists>sys. w = ExitError sys) \<and> \<not> keepNeg then None
                   else if created then Some (concat written) else old)\<rparr>)"
proof -
  let ?copied = "copy_events (OpenTS now1 1) (OpenTS now2 2) es"
  let ?ex = "\<lparr>T = 0, Id' = 127, Buf = [word_of_int (exit_status w)]\<rparr>"
  have ids: "\<forall>r\<in>set (map fst ?copied). Id' r \<noteq> 127"
    using copy_events_ids [of "OpenTS now1 1" "OpenTS now2 2" es]
    by (auto simp: OpenTS_def)
  have p: "plex (map fst ?copied @ [?ex]) [] =
      (map (\<lambda>r. the (Marshal r)) (map fst ?copied @ [?ex]), True)"
    using plex_upto_exit [OF ids, of ?ex "[]" "[]"] by simp
  have e: "(case w of ExitError (Some status) \<Rightarrow> status | _ \<Rightarrow> 0) = exit_status w"
    by (simp add: exit_status_def)
  show ?thesis
    unfolding capture_def Let_def Wait_def exit_record_def
    by (simp add: p e copy_events_console split: wait_error.splits option.splits)
qed

lemma capture_StartFails:
  "capture keepNeg old created now1 now2 (StartFails er) =
     \<lparr>result = Exit 0,
      console = [Stderr (map byte_of_char
                   (''cmd.Start() failed with '' @ [CHR 0x27] @ er @ [CHR 0x27, CHR 0x0A]))],
      channel = [exit_record 0],
      sink = [the (Marshal (exit_record 0))],
      entry = None\<rparr>"
proof -
  let ?ex = "\<lparr>T = 0, Id' = 127, Buf = [word_of_int 0]\<rparr>"
  have p: "plex [?ex] [] = ([the (Marshal ?ex)], True)"
    using plex_upto_exit [of "[]" ?ex "[]" "[]"] by simp
  show ?thesis
    unfolding capture_def Let_def Wait_def exit_record_def
    using p by simp
qed

subsection \<open>The codec\<close>

lemma be_nat_snoc: "be_nat (bs @ [b]) = 256 * be_nat bs + unat b"
  by (simp add: be_nat_def)

lemma be_nat_be_bytes: "be_nat (be_bytes k n) = n mod 256 ^ k"
proof (induction k arbitrary: n)
  case 0
  show ?case by (simp add: be_nat_def)
next
  case (Suc k)
  have "be_nat (be_bytes (Suc k) n) = 256 * ((n div 256) mod 256 ^ k) + n mod 256"
    by (simp add: be_nat_snoc Suc unat_of_nat)
  also have "\<dots> = n mod 256 ^ Suc k"
    by (simp add: mod_mult2_eq)
  finally show ?case .
qed

lemma length_be_bytes: "length (be_bytes k n) = k"
  by (induction k arbitrary: n) simp_all

lemma readN_append: "length h = n \<Longrightarrow> readN n (h @ r) = Some (h, r)"
  by (simp add: readN_def)

lemma read_uint_be_bytes: "read_uint k (be_bytes k n @ r) = Some (n mod 256 ^ k, r)"
  by (simp add: read_uint_def readN_append length_be_bytes be_nat_be_bytes)

lemma read_int_be_bytes:
  "read_int k (be_bytes k n @ r) =
     Some (if 2 ^ (8 * k - 1) \<le> n mod 256 ^ k then int (n mod 256 ^ k) - 2 ^ (8 * k)
           else int (n mod 256 ^ k), r)"
  by (simp add: read_int_def read_uint_be_bytes)

lemma char_of_byte_of_char: "char_of_byte (byte_of_char c) = c"
  by (simp add: char_of_byte_def byte_of_char_def unat_of_nat)

lemma DecodeString_EncodeString:
  assumes "length s < 32"
  shows "DecodeString (EncodeString s @ r) = Some (s, r)"
proof -
  have "unat (of_nat (160 + length s) :: byte) = (160 + length s) mod 2 ^ LENGTH(8)"
    by (rule unat_of_nat)
  with assms have u: "unat (160 + of_nat (length s) :: byte) = 160 + length s"
    by simp
  have l: "bytesLen (160 + of_nat (length s)) (map byte_of_char s @ r)
      = Some (Some (length s), map byte_of_char s @ r)"
    using assms by (simp add: bytesLen_def u Let_def)
  have m: "map (char_of_byte \<circ> byte_of_char) s = s"
    by (simp add: comp_def char_of_byte_of_char)
  show ?thesis
    using assms by (simp add: DecodeString_def EncodeString_def read_bytes_def l readN_append m)
qed

lemma decode_fixnum:
  assumes "- 32 \<le> n" and "n \<le> 127"
  shows "decode (Suc d) (word_of_int n # r) = Some (VInt8 n, r)"
proof -
  have s: "sint (word_of_int n :: byte) = n"
    using assms by (simp add: signed_of_int signed_take_bit_int_eq_self)
  have u: "unat (word_of_int n :: byte) = nat (n mod 256)"
    by (simp add: unat_eq_nat_uint uint_word_of_int)
  have "isFixedNum (word_of_int n)"
  proof (cases "0 \<le> n")
    case True
    with assms have "n mod 256 = n" by simp
    with True assms have "unat (word_of_int n :: byte) \<le> 127" by (simp add: u)
    then show ?thesis by (simp add: isFixedNum_def)
  next
    case False
    have "(n + 256) mod 256 = n + 256"
      using False assms by (intro mod_pos_pos_trivial) simp_all
    then have "n mod 256 = n + 256" by simp
    with False assms have "224 \<le> unat (word_of_int n :: byte)" by (simp add: u)
    then show ?thesis by (simp add: isFixedNum_def)
  qed
  then show ?thesis by (simp add: s)
qed

lemma decode_scalar_code:
  assumes "\<not> isFixedNum c" "\<not> isMapCode c" "\<not> isArrayCode c"
  shows "decode (Suc d) (c # bs) = decode_scalar c bs"
  using assms by simp

lemma code_classes:
  "\<not> isFixedNum 0xcc" "\<not> isMapCode 0xcc" "\<not> isArrayCode 0xcc"
  "\<not> isFixedNum 0xcd" "\<not> isMapCode 0xcd" "\<not> isArrayCode 0xcd"
  "\<not> isFixedNum 0xce" "\<not> isMapCode 0xce" "\<not> isArrayCode 0xce"
  "\<not> isFixedNum 0xcf" "\<not> isMapCode 0xcf" "\<not> isArrayCode 0xcf"
  "\<not> isFixedNum 0xd0" "\<not> isMapCode 0xd0" "\<not> isArrayCode 0xd0"
  "\<not> isFixedNum 0xd1" "\<not> isMapCode 0xd1" "\<not> isArrayCode 0xd1"
  "\<not> isFixedNum 0xd2" "\<not> isMapCode 0xd2" "\<not> isArrayCode 0xd2"
  "\<not> isFixedNum 0xd3" "\<not> isMapCode 0xd3" "\<not> isArrayCode 0xd3"
  "\<not> isFixedNum 0xc4" "\<not> isMapCode 0xc4" "\<not> isArrayCode 0xc4"
  "\<not> isFixedNum 0xc5" "\<not> isMapCode 0xc5" "\<not> isArrayCode 0xc5"
  "\<not> isFixedNum 0xc6" "\<not> isMapCode 0xc6" "\<not> isArrayCode 0xc6"
  by (simp_all add: isFixedNum_def isMapCode_def isArrayCode_def)

lemma decode_uint_codes:
  "decode (Suc d) (0xcc # bs) = map_option (\<lambda>(v, r). (VUint8 (int v), r)) (read_uint 1 bs)"
  "decode (Suc d) (0xcd # bs) = map_option (\<lambda>(v, r). (VUint16 (int v), r)) (read_uint 2 bs)"
  "decode (Suc d) (0xce # bs) = map_option (\<lambda>(v, r). (VUint32 (int v), r)) (read_uint 4 bs)"
  "decode (Suc d) (0xcf # bs) = map_option (\<lambda>(v, r). (VUint64 (int v), r)) (read_uint 8 bs)"
  by (simp_all add: decode_scalar_code code_classes decode_scalar_def del: decode.simps)

lemma decode_int_codes:
  "decode (Suc d) (0xd0 # bs) = map_option (\<lambda>(v, r). (VInt8 v, r)) (read_int 1 bs)"
  "decode (Suc d) (0xd1 # bs) = map_option (\<lambda>(v, r). (VInt16 v, r)) (read_int 2 bs)"
  "decode (Suc d) (0xd2 # bs) = map_option (\<lambda>(v, r). (VInt32 v, r)) (read_int 4 bs)"
  "decode (Suc d) (0xd3 # bs) = map_option (\<lambda>(v, r). (VInt64 v, r)) (read_int 8 bs)"
  by (simp_all add: decode_scalar_code code_classes decode_scalar_def del: decode.simps)

lemma decode_bin_codes:
  "decode (Suc d) (0xc4 # bs) = map_option (\<lambda>(b, r). (VBytes b, r)) (read_bytes 0xc4 bs)"
  "decode (Suc d) (0xc5 # bs) = map_option (\<lambda>(b, r). (VBytes b, r)) (read_bytes 0xc5 bs)"
  "decode (Suc d) (0xc6 # bs) = map_option (\<lambda>(b, r). (VBytes b, r)) (read_bytes 0xc6 bs)"
  by (simp_all add: decode_scalar_code code_classes decode_scalar_def del: decode.simps)

lemma decode_EncodeUint:
  assumes "0 \<le> n" and "n < 2 ^ 64"
  shows "decode (Suc d) (EncodeUint n @ r) = Some (int_value n, r)"
proof -
  consider (a) "n \<le> 127" | (b) "127 < n" "n \<le> 255" | (c) "255 < n" "n \<le> 65535"
    | (d) "65535 < n" "n \<le> 4294967295" | (e) "4294967295 < n"
    by linarith
  then show ?thesis
  proof cases
    case a
    with assms show ?thesis
      by (simp add: EncodeUint_def int_value_def decode_fixnum del: decode.simps)
  next
    case b
    with assms have "int (nat n mod 256 ^ 1) = n" by simp
    with b assms show ?thesis
      by (simp add: EncodeUint_def int_value_def decode_uint_codes read_uint_be_bytes
          del: decode.simps be_bytes.simps)
  next
    case c
    with assms have "int (nat n mod 256 ^ 2) = n" by simp
    with c assms show ?thesis
      by (simp add: EncodeUint_def int_value_def decode_uint_codes read_uint_be_bytes
          del: decode.simps be_bytes.simps)
  next
    case d
    with assms have "int (nat n mod 256 ^ 4) = n" by simp
    with d assms show ?thesis
      by (simp add: EncodeUint_def int_value_def decode_uint_codes read_uint_be_bytes
          del: decode.simps be_bytes.simps)
  next
    case e
    with assms have "int (nat n mod 256 ^ 8) = n" by simp
    with e assms show ?thesis
      by (simp add: EncodeUint_def int_value_def decode_uint_codes read_uint_be_bytes
          del: decode.simps be_bytes.simps)
  qed
qed

lemma neg_mod_eq:
  fixes n m :: int
  assumes "- m \<le> n" and "n < 0"
  shows "n mod m = n + m"
proof -
  have "(n + m) mod m = n + m"
    using assms by (intro mod_pos_pos_trivial) simp_all
  then show ?thesis by simp
qed

lemma read_int_neg:
  assumes "- (2 ^ (8 * k - 1)) \<le> n" and "n < 0" and "0 < k"
  shows "read_int k (be_bytes k (nat (n mod 2 ^ (8 * k))) @ r) = Some (n, r)"
proof -
  have p: "(2::int) ^ (8 * k) = 2 * 2 ^ (8 * k - 1)"
    using assms(3) by (simp add: power_eq_if)
  have q: "(256::nat) ^ k = 2 ^ (8 * k)"
    by (simp add: power_mult)
  have m: "n mod 2 ^ (8 * k) = n + 2 ^ (8 * k)"
    using assms p by (intro neg_mod_eq) simp_all
  have lt: "n + 2 ^ (8 * k) < 2 ^ (8 * k)" using assms by simp
  have ge: "0 \<le> n + 2 ^ (8 * k)" using assms p by simp
  have v: "int (nat (n mod 2 ^ (8 * k)) mod 256 ^ k) = n + 2 ^ (8 * k)"
    using lt ge by (simp add: m q nat_less_iff)
  have h: "(2::nat) ^ (8 * k - 1) \<le> nat (n mod 2 ^ (8 * k)) mod 256 ^ k"
  proof -
    have "(2::int) ^ (8 * k - 1) \<le> n + 2 ^ (8 * k)" using assms p by simp
    then have "int (2 ^ (8 * k - 1)) \<le> int (nat (n mod 2 ^ (8 * k)) mod 256 ^ k)"
      using v by simp
    then show ?thesis by (simp only: of_nat_le_iff)
  qed
  show ?thesis
    unfolding read_int_be_bytes using h v by simp
qed

lemma decode_EncodeInt:
  assumes "- (2 ^ 63) \<le> n" and "n < 2 ^ 64"
  shows "decode (Suc d) (EncodeInt n @ r) = Some (int_value n, r)"
proof (cases "0 \<le> n")
  case True
  with assms show ?thesis
    by (simp add: EncodeInt_def decode_EncodeUint del: decode.simps)
next
  case False
  then have neg: "n < 0" by simp
  consider (a) "- 32 \<le> n" | (b) "n < - 32" "- 128 \<le> n" | (c) "n < - 128" "- 32768 \<le> n"
    | (d) "n < - 32768" "- 2147483648 \<le> n" | (e) "n < - 2147483648"
    by linarith
  then show ?thesis
  proof cases
    case a
    with neg show ?thesis
      by (simp add: EncodeInt_def int_value_def decode_fixnum del: decode.simps)
  next
    case b
    from read_int_neg [of 1 n r] b neg
    have "read_int 1 (be_bytes 1 (nat (n mod 2 ^ 8)) @ r) = Some (n, r)" by simp
    with b neg show ?thesis
      by (simp add: EncodeInt_def int_value_def decode_int_codes
          del: decode.simps be_bytes.simps)
  next
    case c
    from read_int_neg [of 2 n r] c neg
    have "read_int 2 (be_bytes 2 (nat (n mod 2 ^ 16)) @ r) = Some (n, r)" by simp
    with c neg show ?thesis
      by (simp add: EncodeInt_def int_value_def decode_int_codes
          del: decode.simps be_bytes.simps)
  next
    case d
    from read_int_neg [of 4 n r] d neg
    have "read_int 4 (be_bytes 4 (nat (n mod 2 ^ 32)) @ r) = Some (n, r)" by simp
    with d neg show ?thesis
      by (simp add: EncodeInt_def int_value_def decode_int_codes
          del: decode.simps be_bytes.simps)
  next
    case e
    from read_int_neg [of 8 n r] e neg assms
    have "read_int 8 (be_bytes 8 (nat (n mod 2 ^ 64)) @ r) = Some (n, r)" by simp
    with e neg show ?thesis
      by (simp add: EncodeInt_def int_value_def decode_int_codes
          del: decode.simps be_bytes.simps)
  qed
qed

lemma read_bytes_bin:
  "read_bytes 0xc4 bs = (case read_uint 1 bs of None \<Rightarrow> None | Some (n, r) \<Rightarrow> readN n r)"
  "read_bytes 0xc5 bs = (case read_uint 2 bs of None \<Rightarrow> None | Some (n, r) \<Rightarrow> readN n r)"
  "read_bytes 0xc6 bs = (case read_uint 4 bs of None \<Rightarrow> None | Some (n, r) \<Rightarrow> readN n r)"
  by (simp_all add: read_bytes_def bytesLen_def split: option.splits)

lemma decode_EncodeBytes:
  assumes "length v < 2 ^ 32"
  shows "decode (Suc d) (EncodeBytes v @ r) = Some (VBytes v, r)"
proof -
  consider (a) "length v < 256" | (b) "256 \<le> length v" "length v < 65536"
    | (c) "65536 \<le> length v"
    by linarith
  then show ?thesis
  proof cases
    case a
    then have "length v mod 256 ^ 1 = length v" by simp
    with a show ?thesis
      by (simp add: EncodeBytes_def decode_bin_codes read_bytes_bin read_uint_be_bytes
          readN_append del: decode.simps be_bytes.simps)
  next
    case b
    then have "length v mod 256 ^ 2 = length v" by simp
    with b show ?thesis
      by (simp add: EncodeBytes_def decode_bin_codes read_bytes_bin read_uint_be_bytes
          readN_append del: decode.simps be_bytes.simps)
  next
    case c
    with assms have "length v mod 256 ^ 4 = length v" by simp
    with c show ?thesis
      by (simp add: EncodeBytes_def decode_bin_codes read_bytes_bin read_uint_be_bytes
          readN_append del: decode.simps be_bytes.simps)
  qed
qed

lemma decode_fixmap3:
  "decode (Suc d) (0x83 # bs) = map_option (\<lambda>(m, r'). (VMap m, r')) (decodeMap d 3 bs)"
  by (simp add: isFixedNum_def isMapCode_def mapLen_def)

lemma decode_Marshal:
  assumes "valid_record r"
  shows "decode (Suc (Suc d)) (the (Marshal r) @ rest) = Some (record_value r, rest)"
proof -
  let ?t = "EncodeInt (T r)" and ?i = "EncodeInt (Id' r)" and ?b = "EncodeBytes (Buf r)"
  from assms have t: "\<And>x. decode (Suc d) (?t @ x) = Some (int_value (T r), x)"
    and i: "\<And>x. decode (Suc d) (?i @ x) = Some (int_value (Id' r), x)"
    and b: "\<And>x. decode (Suc d) (?b @ x) = Some (VBytes (Buf r), x)"
    by (simp_all add: valid_record_def decode_EncodeInt decode_EncodeBytes del: decode.simps)
  have k: "\<And>x. DecodeString (EncodeString ''T'' @ x) = Some (''T'', x)"
    "\<And>x. DecodeString (EncodeString ''Id'' @ x) = Some (''Id'', x)"
    "\<And>x. DecodeString (EncodeString ''Buf'' @ x) = Some (''Buf'', x)"
    by (simp_all add: DecodeString_EncodeString)
  have three: "(3::nat) = Suc (Suc (Suc 0))" by simp
  have m: "decodeMap (Suc d) 3
      (EncodeString ''T'' @ ?t @ EncodeString ''Id'' @ ?i @ EncodeString ''Buf'' @ ?b @ rest)
      = Some ([(''T'', int_value (T r)), (''Id'', int_value (Id' r)), (''Buf'', VBytes (Buf r))], rest)"
    unfolding three
    by (simp add: k t i b del: decode.simps)
  have e: "the (Marshal r) @ rest =
      0x83 # EncodeString ''T'' @ ?t @ EncodeString ''Id'' @ ?i @ EncodeString ''Buf'' @ ?b @ rest"
    by (simp add: Marshal_def EncodeMapLen_def)
  show ?thesis
    unfolding e decode_fixmap3 m record_value_def by simp
qed

subsection \<open>Printing and scanning integers\<close>

declare digits.simps [simp del]

lemma of_char_digit: "k < 10 \<Longrightarrow> (of_char (char_of (48 + (k::nat))) :: nat) = 48 + k"
  by simp

lemma isDigit_digit: "k < 10 \<Longrightarrow> isDigit (char_of (48 + (k::nat)))"
  by (simp add: isDigit_def)

lemma digit_not_special:
  assumes "isDigit c"
  shows "\<not> isSpace c" "c \<noteq> CHR ''-''" "c \<noteq> CHR ''+''"
  using assms by (auto simp: isDigit_def isSpace_def)

lemma digits_all: "\<forall>c\<in>set (digits m). isDigit c"
proof (induction m rule: digits.induct)
  case (1 n)
  show ?case
  proof (cases "n < 10")
    case True
    then show ?thesis by (subst digits.simps) (simp add: isDigit_digit)
  next
    case False
    have "n mod 10 < 10" by simp
    then have "isDigit (char_of (48 + n mod 10))" by (rule isDigit_digit)
    with False 1 show ?thesis by (subst digits.simps) simp
  qed
qed

lemma digits_nonempty: "digits m \<noteq> []"
  by (subst digits.simps) simp

lemma atoi_snoc: "atoi (ds @ [c]) = 10 * atoi ds + (of_char c - 48)"
  by (simp add: atoi_def)

lemma atoi_digits: "atoi (digits m) = m"
proof (induction m rule: digits.induct)
  case (1 n)
  show ?case
  proof (cases "n < 10")
    case True
    then show ?thesis by (subst digits.simps) (simp add: atoi_def)
  next
    case False
    have "n mod 10 < 10" by simp
    then have "(of_char (char_of (48 + n mod 10)) :: nat) = 48 + n mod 10" by (rule of_char_digit)
    with False 1 show ?thesis by (subst digits.simps) (simp add: atoi_snoc)
  qed
qed

lemma takeWhile_digits: "takeWhile isDigit (digits m) = digits m"
  using digits_all [of m] by (simp add: takeWhile_eq_all_conv)

lemma digits_head:
  "dropWhile isSpace (digits m) = digits m"
  "hd (digits m) \<noteq> CHR ''-''"
  "hd (digits m) \<noteq> CHR ''+''"
proof -
  obtain c cs where d: "digits m = c # cs"
    using digits_nonempty [of m] by (cases "digits m") auto
  with digits_all [of m] have c: "isDigit c" by simp
  show "dropWhile isSpace (digits m) = digits m"
    using d digit_not_special(1) [OF c] by simp
  show "hd (digits m) \<noteq> CHR ''-''" "hd (digits m) \<noteq> CHR ''+''"
    using d digit_not_special(2,3) [OF c] by simp_all
qed

lemma Sscanf_d_itoa:
  assumes "- (2 ^ 63) \<le> n" and "n < 2 ^ 63"
  shows "Sscanf_d (itoa n) = Some n"
proof (cases "n < 0")
  case True
  have s: "\<not> isSpace CHR ''-''" by (simp add: isSpace_def)
  show ?thesis
    using True assms s
    by (simp add: Sscanf_d_def itoa_def takeWhile_digits atoi_digits digits_nonempty Let_def)
next
  case False
  show ?thesis
    using False assms
    by (simp add: Sscanf_d_def itoa_def digits_head takeWhile_digits atoi_digits
        digits_nonempty Let_def)
qed

subsection \<open>Encoded files and their replay\<close>

lemma Sprintf_v_int_value: "Sprintf_v (int_value n) = itoa n"
  by (simp add: int_value_def)

lemma DurationOf_int_value:
  assumes "- (2 ^ 63) \<le> n" and "n < 2 ^ 63"
  shows "DurationOf (int_value n) = n"
  using assms by (simp add: DurationOf_def Sprintf_v_int_value Sscanf_d_itoa)

lemma fields_record_value:
  assumes "valid_record r" and "- 128 \<le> Id' r" and "Id' r \<le> 127"
  shows "fields (record_value r) = Some (T r, Id' r, Buf r)"
proof -
  have i: "int_value (Id' r) = VInt8 (Id' r)"
    using assms(2,3) by (simp add: int_value_def)
  have t: "DurationOf (int_value (T r)) = T r"
    using assms(1) by (simp add: valid_record_def DurationOf_int_value)
  show ?thesis
    by (simp add: fields_def record_value_def index_def i t)
qed

lemma Marshal_nonempty: "the (Marshal r) @ rest = 0x83 # tl (the (Marshal r) @ rest)"
  by (simp add: Marshal_def EncodeMapLen_def)

lemma DecodeInterface_Marshal:
  assumes "valid_record r"
  shows "DecodeInterface (the (Marshal r) @ rest) = Some (record_value r, rest)"
proof -
  have "length (the (Marshal r) @ rest) \<noteq> 0"
    by (subst Marshal_nonempty) simp
  then obtain d where "length (the (Marshal r) @ rest) = Suc d"
    by (cases "length (the (Marshal r) @ rest)") auto
  then show ?thesis
    unfolding DecodeInterface_def using decode_Marshal [OF assms] by (simp del: decode.simps)
qed

lemma decode_all_Marshal:
  assumes "\<forall>r\<in>set rs. valid_record r"
  shows "decode_all (concat (map (\<lambda>r. the (Marshal r)) rs) @ rest) = map record_value rs @ decode_all rest"
  using assms
proof (induction rs)
  case Nil
  show ?case by simp
next
  case (Cons r rs)
  then have v: "valid_record r" and IH: "decode_all (concat (map (\<lambda>r. the (Marshal r)) rs) @ rest) = map record_value rs @ decode_all rest"
    by simp_all
  have "decode_all (the (Marshal r) @ concat (map (\<lambda>r. the (Marshal r)) rs) @ rest)
      = record_value r # decode_all (concat (map (\<lambda>r. the (Marshal r)) rs) @ rest)"
    by (subst decode_all.simps) (simp add: DecodeInterface_Marshal [OF v])
  with IH show ?case by simp
qed

lemma decode_all_Nil: "decode_all [] = []"
  by (subst decode_all.simps) (simp add: DecodeInterface_def)

lemma decode_all_error: "DecodeInterface bs = None \<Longrightarrow> decode_all bs = []"
  by (subst decode_all.simps) simp

lemma copy_events_tags:
  "map (\<lambda>x. Id' (fst x)) (copy_events so se es)
     = map (\<lambda>e. case fst e of StdoutPipe \<Rightarrow> ts_id so | StderrPipe \<Rightarrow> ts_id se) es"
proof (induction so se es rule: copy_events.induct)
  case (1 so se)
  show ?case by simp
next
  case (2 so se tn d es)
  obtain so' rec n where w: "Write so tn d = (so', rec, n)" by (cases "Write so tn d") auto
  with 2 [OF w [symmetric] refl] Write_id [OF w] show ?case by (simp cong: pipe.case_cong)
next
  case (3 so se tn d es)
  obtain se' rec n where w: "Write se tn d = (se', rec, n)" by (cases "Write se tn d") auto
  with 3 [OF w [symmetric] refl] Write_id [OF w] show ?case by (simp cong: pipe.case_cong)
qed

lemma div_le_self_int:
  fixes x m :: int
  assumes "0 \<le> x" and "0 < m"
  shows "x div m \<le> x"
  using assms by (metis div_0 int_div_le_self leI nle_le)

lemma Sub_range: "- (2 ^ 63) \<le> Sub a b \<and> Sub a b < 2 ^ 63"
  by (simp add: Sub_def Let_def)

lemma sdiv_range:
  fixes x m :: int
  assumes "- (2 ^ 63) \<le> x" and "x < 2 ^ 63" and "0 < m"
  shows "- (2 ^ 63) \<le> x sdiv m \<and> x sdiv m < 2 ^ 63"
proof (cases "0 \<le> x")
  case True
  then have "x sdiv m = x div m"
    using assms(3) by (simp add: signed_divide_int_def sgn_if)
  moreover have "x div m \<le> x" using True assms(3) by (simp add: div_le_self_int)
  moreover have "0 \<le> x div m" using True assms(3) by (simp add: pos_imp_zdiv_nonneg_iff)
  ultimately show ?thesis using assms by simp
next
  case False
  then have e: "x sdiv m = - ((- x) div m)"
    using assms(3) by (simp add: signed_divide_int_def sgn_if)
  have "(- x) div m \<le> - x" using False assms(3) by (intro div_le_self_int) simp_all
  moreover have "0 \<le> (- x) div m" using False assms(3) by (simp add: pos_imp_zdiv_nonneg_iff)
  ultimately show ?thesis using assms e by simp
qed

lemma Write_valid:
  assumes "Write ts tn d = (ts', rec, n)" and "length d < 2 ^ 32"
    and "- (2 ^ 63) \<le> ts_id ts" and "ts_id ts < 2 ^ 63"
  shows "valid_record rec"
proof -
  have "- (2 ^ 63) \<le> Sub tn (ts_t ts) sdiv Millisecond \<and> Sub tn (ts_t ts) sdiv Millisecond < 2 ^ 63"
    using Sub_range [of tn "ts_t ts"] by (intro sdiv_range) (simp_all add: Millisecond_def)
  with assms show ?thesis
    by (auto simp: Write_def Let_def valid_record_def)
qed

lemma copy_events_valid:
  assumes "\<forall>e\<in>set es. length (snd (snd e)) < 2 ^ 32"
    and "- (2 ^ 63) \<le> ts_id so" "ts_id so < 2 ^ 63" "- (2 ^ 63) \<le> ts_id se" "ts_id se < 2 ^ 63"
  shows "\<forall>x\<in>set (copy_events so se es). valid_record (fst x)"
  using assms
proof (induction so se es rule: copy_events.induct)
  case (1 so se)
  show ?case by simp
next
  case (2 so se tn d es)
  obtain so' rec n where w: "Write so tn d = (so', rec, n)" by (cases "Write so tn d") auto
  from 2(2) have d: "length d < 2 ^ 32" and rest: "\<forall>e\<in>set es. length (snd (snd e)) < 2 ^ 32"
    by simp_all
  from Write_valid [OF w d 2(3,4)] have v: "valid_record rec" .
  from Write_id [OF w] have i: "ts_id so' = ts_id so" by simp
  from 2(1) [OF w [symmetric] refl rest] i 2(3-6)
  have "\<forall>x\<in>set (copy_events so' se es). valid_record (fst x)" by simp
  with v w show ?case by simp
next
  case (3 so se tn d es)
  obtain se' rec n where w: "Write se tn d = (se', rec, n)" by (cases "Write se tn d") auto
  from 3(2) have d: "length d < 2 ^ 32" and rest: "\<forall>e\<in>set es. length (snd (snd e)) < 2 ^ 32"
    by simp_all
  from Write_valid [OF w d 3(5,6)] have v: "valid_record rec" .
  from Write_id [OF w] have i: "ts_id se' = ts_id se" by simp
  from 3(1) [OF w [symmetric] refl rest] i 3(3-6)
  have "\<forall>x\<in>set (copy_events so se' es). valid_record (fst x)" by simp
  with v w show ?case by simp
qed

lemma uint_byte: "0 \<le> c \<Longrightarrow> c \<le> 255 \<Longrightarrow> uint (word_of_int c :: byte) = c"
  by (simp add: uint_word_of_int)

lemma replay_ok:
  assumes "\<forall>v\<in>set (decode_all content). record_ok v"
  shows "replay delay True content =
     \<lparr>result = Exit (last_exit_code (decode_all content)),
      console = concat (map (emitted delay) (decode_all content)),
      channel = [], sink = [], entry = Some content\<rparr>"
  using replay_loop_ok [OF assms, of delay 0 "[]"]
  by (simp add: replay_def last_exit_code_def)

lemma exit_codes_record_values:
  assumes "\<forall>r\<in>set rs. valid_record r \<and> - 128 \<le> Id' r \<and> Id' r \<le> 127 \<and> (Id' r = 127 \<longrightarrow> Buf r \<noteq> [])"
  shows "List.map_filter exit_code_of (map record_value rs)
     = map (\<lambda>r. uint (hd (Buf r))) (filter (\<lambda>r. Id' r = 127) rs)"
  using assms
proof (induction rs)
  case Nil
  show ?case by (simp add: List.map_filter_simps)
next
  case (Cons r rs)
  then have f: "fields (record_value r) = Some (T r, Id' r, Buf r)"
    by (simp add: fields_record_value)
  show ?case
  proof (cases "Id' r = 127")
    case True
    with Cons.prems obtain b bs where "Buf r = b # bs" by (cases "Buf r") auto
    with True f Cons show ?thesis
      by (simp add: List.map_filter_simps exit_code_of_def)
  next
    case False
    with f have "exit_code_of (record_value r) = None"
      by (simp add: exit_code_of_def split: list.splits)
    with False Cons show ?thesis
      by (simp add: List.map_filter_simps)
  qed
qed

lemma record_values_ok:
  assumes "\<forall>r\<in>set rs. valid_record r \<and> - 128 \<le> Id' r \<and> Id' r \<le> 127 \<and> (Id' r = 127 \<longrightarrow> Buf r \<noteq> [])"
  shows "\<forall>v\<in>set (map record_value rs). record_ok v"
  using assms by (auto simp: record_ok_def fields_record_value)

lemma replay_encoded:
  assumes "\<forall>r\<in>set rs. valid_record r \<and> - 128 \<le> Id' r \<and> Id' r \<le> 127 \<and> (Id' r = 127 \<longrightarrow> Buf r \<noteq> [])"
    and "DecodeInterface junk = None"
  shows "result (replay delay True (concat (map (\<lambda>r. the (Marshal r)) rs) @ junk))
     = Exit (last (0 # map (\<lambda>r. uint (hd (Buf r))) (filter (\<lambda>r. Id' r = 127) rs)))"
proof -
  from assms(1) have v: "\<forall>r\<in>set rs. valid_record r" by simp
  have d: "decode_all (concat (map (\<lambda>r. the (Marshal r)) rs) @ junk) = map record_value rs"
    using decode_all_Marshal [OF v, of junk] decode_all_error [OF assms(2)] by simp
  have ok: "\<forall>v\<in>set (decode_all (concat (map (\<lambda>r. the (Marshal r)) rs) @ junk)). record_ok v"
    unfolding d by (rule record_values_ok [OF assms(1)])
  show ?thesis
    unfolding replay_ok [OF ok] d
    by (simp add: last_exit_code_def exit_codes_record_values [OF assms(1)])
qed

lemma plex_all:
  assumes "\<forall>r\<in>set pre. Id' r \<noteq> 127" and "Id' ex = 127"
  shows "plex (pre @ [ex]) [] = (map (\<lambda>r. the (Marshal r)) (pre @ [ex]), True)"
  using plex_upto_exit [OF assms, of "[]" "[]"] by simp

subsection \<open>Freshness\<close>

lemma age_seconds_exact:
  assumes "0 \<le> now - modTime" and "now - modTime < 2 ^ 63"
  shows "age_seconds now modTime = (now - modTime) div 1000000000"
  using assms by (simp add: age_seconds_def Sub_def Second_def Let_def signed_divide_int_def sgn_if)

subsection \<open>The goroutines of the capture branch\<close>

lemma sound_start: "sound er (start now1 now2 es)"
  by (simp add: sound_def start_def OpenTS_def in_step_def copying_def)

lemma step_less:
  assumes "step keepNeg er g a = Some g'"
  shows "steps_left g' < steps_left g"
proof (cases a)
  case (CopyRead p)
  with assms show ?thesis
    by (cases p)
      (auto simp: steps_left_def copier_left_def copier_of_def with_copier_def Let_def
        split: if_splits copy_pc.splits list.splits prod.splits)
next
  case (CopySend p)
  with assms show ?thesis
    by (cases p)
      (auto simp: steps_left_def copier_left_def copier_of_def with_copier_def Let_def
        split: if_splits copy_pc.splits plex_pc.splits)
next
  case (CopyTee p)
  with assms show ?thesis
    by (cases p)
      (auto simp: steps_left_def copier_left_def copier_of_def with_copier_def Let_def
        split: if_splits copy_pc.splits)
qed (use assms in \<open>auto simp: steps_left_def Let_def
        split: if_splits main_pc.splits plex_pc.splits option.splits\<close>)

lemma wrote_snoc:
  assumes "received g \<noteq> []" and "last (received g) = rec"
    and "wrote g = map (\<lambda>r. the (Marshal r)) (butlast (received g))"
  shows "wrote g @ [the (Marshal rec)] = map (\<lambda>r. the (Marshal r)) (received g)"
proof -
  have "map (\<lambda>r. the (Marshal r)) (butlast (received g) @ [last (received g)])
      = wrote g @ [the (Marshal rec)]"
    using assms by simp
  with assms(1) show ?thesis by simp
qed

lemma PlexWrite_sound:
  assumes "step keepNeg er g PlexWrite = Some g'" and "sound er g"
  shows "sound er g'"
proof -
  from assms(1) obtain rec where got: "plex_at g = Got rec"
    and g': "g' = g\<lparr>wrote := wrote g @ [the (Marshal rec)],
        plex_at := (if Id' rec = 127 then Signalling else Receiving)\<rparr>"
    by (auto simp: Marshal_def split: if_splits plex_pc.splits)
  from assms(2) got have ne: "received g \<noteq> []" and l: "last (received g) = rec"
    and w: "wrote g = map (\<lambda>r. the (Marshal r)) (butlast (received g))"
    by (simp_all add: sound_def in_step_def)
  note all = wrote_snoc [OF ne l w]
  from ne l have mem: "rec \<in> set (received g)" by (metis last_in_set)
  show ?thesis
  proof (cases "main_at g")
    case AtWait
    with assms(2) mem have "Id' rec \<noteq> 127" by (auto simp: sound_def copying_def)
    with assms(2) AtWait all show ?thesis
      by (simp add: g' sound_def in_step_def copying_def)
  next
    case (AtSend c)
    with assms(2) mem have "Id' rec \<noteq> 127" by (auto simp: sound_def copying_def)
    with assms(2) AtSend all show ?thesis
      by (simp add: g' sound_def in_step_def copying_def)
  next
    case (AtReceive c)
    with assms(2) got have "rec = exit_record c" by (simp add: sound_def)
    then have "Id' rec = 127" by (simp add: exit_record_def)
    with assms(2) AtReceive all show ?thesis
      by (simp add: g' sound_def in_step_def ended_def)
  next
    case (Exited c)
    with assms(2) got show ?thesis by (simp add: sound_def)
  qed
qed

lemma CopyRead_sound:
  assumes "step keepNeg er g (CopyRead p) = Some g'" and "sound er g"
  shows "sound er g'"
proof -
  from assms(1) obtain tn d rest ts rec n
    where w: "Write (writer (copier_of p g)) tn d = (ts, rec, n)"
      and g': "g' = with_copier p \<lparr>copy_at = Sending rec d, writer = ts, pending = rest\<rparr> g"
    by (auto simp: Let_def split: if_splits copy_pc.splits list.splits prod.splits)
  from Write_id [OF w] have i: "ts_id ts = ts_id (writer (copier_of p g))"
    "Id' rec = ts_id (writer (copier_of p g))" by simp_all
  from assms(2) i show ?thesis
    by (cases p)
      (auto simp: g' sound_def in_step_def copying_def ended_def copier_of_def with_copier_def
        split: main_pc.splits plex_pc.splits)
qed

lemma CopySend_sound:
  assumes "step keepNeg er g (CopySend p) = Some g'" and "sound er g"
  shows "sound er g'"
proof -
  from assms(1) obtain rec d where s: "copy_at (copier_of p g) = Sending rec d"
    and r: "plex_at g = Receiving"
    and g': "g' = (with_copier p ((copier_of p g)\<lparr>copy_at := Teeing d\<rparr>) g)
          \<lparr>plex_at := Got rec, received := received g @ [rec]\<rparr>"
    by (auto simp: Let_def split: if_splits copy_pc.splits plex_pc.splits)
  from assms(2) s have i: "Id' rec = 1 \<or> Id' rec = 2"
    by (cases p) (simp_all add: sound_def copier_of_def)
  from assms(2) r have m: "main_at g = AtWait \<or> (\<exists>c. main_at g = AtSend c)"
    by (cases "main_at g") (simp_all add: sound_def)
  from assms(2) r i m show ?thesis
    by (cases p)
      (auto simp: g' sound_def in_step_def copying_def copier_of_def with_copier_def)
qed

lemma CopyTee_sound:
  assumes "step keepNeg er g (CopyTee p) = Some g'" and "sound er g"
  shows "sound er g'"
proof -
  from assms(1) obtain d
    where g': "g' = (with_copier p ((copier_of p g)\<lparr>copy_at := Reading\<rparr>) g)
          \<lparr>shown := shown g @ [stream_of p d]\<rparr>"
    by (auto simp: Let_def split: if_splits copy_pc.splits)
  from assms(2) show ?thesis
    by (cases p)
      (auto simp: g' sound_def in_step_def copying_def ended_def copier_of_def with_copier_def
        split: main_pc.splits plex_pc.splits)
qed

lemma step_sound:
  assumes "step keepNeg er g a = Some g'" and "sound er g"
  shows "sound er g'"
proof (cases a)
  case DoWait
  with assms show ?thesis
    by (auto simp: sound_def in_step_def copying_def exit_status_def Let_def
        split: if_splits main_pc.splits plex_pc.splits)
next
  case SendExit
  with assms show ?thesis
    by (auto simp: sound_def in_step_def copying_def ended_def exit_record_def Let_def
        split: if_splits main_pc.splits plex_pc.splits)
next
  case PlexWrite
  with assms show ?thesis by (simp add: PlexWrite_sound)
next
  case Finish
  with assms show ?thesis
    by (auto simp: sound_def in_step_def copying_def ended_def Let_def
        split: if_splits main_pc.splits plex_pc.splits)
next
  case (CopyRead p)
  with assms show ?thesis by (simp add: CopyRead_sound)
next
  case (CopySend p)
  with assms show ?thesis by (simp add: CopySend_sound)
next
  case (CopyTee p)
  with assms show ?thesis by (simp add: CopyTee_sound)
qed

lemma run_sound:
  "run keepNeg er g as = Some g' \<Longrightarrow> sound er g \<Longrightarrow> sound er g'"
proof (induction as arbitrary: g)
  case Nil
  then show ?case by simp
next
  case (Cons a as)
  from Cons.prems(1) obtain g1 where s: "step keepNeg er g a = Some g1"
    and r: "run keepNeg er g1 as = Some g'"
    by (auto split: option.splits)
  from Cons.IH [OF r step_sound [OF s Cons.prems(2)]] show ?case .
qed

lemma run_length:
  "run keepNeg er g as = Some g' \<Longrightarrow> steps_left g' + length as \<le> steps_left g"
proof (induction as arbitrary: g)
  case Nil
  then show ?case by simp
next
  case (Cons a as)
  from Cons.prems obtain g1 where s: "step keepNeg er g a = Some g1"
    and r: "run keepNeg er g1 as = Some g'"
    by (auto split: option.splits)
  from Cons.IH [OF r] step_less [OF s] show ?case by simp
qed

lemma steps_left_start: "steps_left (start now1 now2 es) = 4 * length es + 6"
proof -
  have "{e \<in> set es. fst e = StderrPipe} = {e \<in> set es. fst e \<noteq> StdoutPipe}"
    by (auto intro: pipe.exhaust)
  have e: "(\<lambda>e::event. fst e = StderrPipe) = (\<lambda>e. \<not> fst e = StdoutPipe)"
    by (rule ext) (metis pipe.distinct(1) pipe.exhaust)
  have "length (chunks StdoutPipe es) + length (chunks StderrPipe es) = length es"
    unfolding chunks_def length_map e by (rule sum_length_filter_compl)
  then show ?thesis
    by (simp add: steps_left_def start_def copier_left_def)
qed

lemma sound_progress:
  assumes "sound er g" and "\<forall>c. main_at g \<noteq> Exited c"
  shows "\<exists>a. step keepNeg er g a \<noteq> None"
proof (cases "main_at g")
  case AtWait
  with assms(2) have "step keepNeg er g DoWait \<noteq> None" by (simp add: Let_def)
  then show ?thesis ..
next
  case (AtSend c)
  with assms have "plex_at g = Receiving \<or> (\<exists>rec. plex_at g = Got rec)"
    by (cases "plex_at g") (simp_all add: sound_def copying_def)
  then show ?thesis
  proof
    assume "plex_at g = Receiving"
    with AtSend assms(2) have "step keepNeg er g SendExit \<noteq> None" by (simp add: Let_def)
    then show ?thesis ..
  next
    assume "\<exists>rec. plex_at g = Got rec"
    with assms(2) have "step keepNeg er g PlexWrite \<noteq> None"
      by (auto simp: Marshal_def)
    then show ?thesis ..
  qed
next
  case (AtReceive c)
  with assms have "plex_at g = Got (exit_record c) \<or> plex_at g = Signalling"
    by (auto simp: sound_def)
  then show ?thesis
  proof
    assume "plex_at g = Got (exit_record c)"
    with assms(2) have "step keepNeg er g PlexWrite \<noteq> None"
      by (auto simp: Marshal_def)
    then show ?thesis ..
  next
    assume "plex_at g = Signalling"
    with AtReceive assms(2) have "step keepNeg er g Finish \<noteq> None" by simp
    then show ?thesis ..
  qed
next
  case (Exited c)
  with assms(2) show ?thesis by simp
qed

lemma run_append:
  "run keepNeg er g (as @ bs) =
     (case run keepNeg er g as of None \<Rightarrow> None | Some g' \<Rightarrow> run keepNeg er g' bs)"
  by (induction as arbitrary: g) (simp_all split: option.splits)

lemma can_finish:
  "sound er g \<Longrightarrow> \<exists>as g'. run keepNeg er g as = Some g' \<and> main_at g' = Exited (exit_status er)"
proof (induction "steps_left g" arbitrary: g rule: less_induct)
  case less
  show ?case
  proof (cases "\<forall>c. main_at g \<noteq> Exited c")
    case False
    then obtain c where "main_at g = Exited c" by auto
    with less.prems have "main_at g = Exited (exit_status er)" by (simp add: sound_def)
    then have "run keepNeg er g [] = Some g \<and> main_at g = Exited (exit_status er)" by simp
    then show ?thesis by blast
  next
    case True
    from sound_progress [OF less.prems True, of keepNeg]
    obtain a g1 where s: "step keepNeg er g a = Some g1" by auto
    from less.hyps [OF step_less [OF s] step_sound [OF s less.prems]]
    obtain as g' where "run keepNeg er g1 as = Some g'" "main_at g' = Exited (exit_status er)"
      by blast
    with s have "run keepNeg er g (a # as) = Some g' \<and> main_at g' = Exited (exit_status er)"
      by simp
    then show ?thesis by blast
  qed
qed

lemma copy_in_order:
  assumes "main_at g = AtWait" and "plex_at g = Receiving"
    and "copy_at (copy_out g) = Reading" and "copy_at (copy_err g) = Reading"
    and "pending (copy_out g) = chunks StdoutPipe es"
    and "pending (copy_err g) = chunks StderrPipe es"
    and "ts_id (writer (copy_out g)) = 1" and "ts_id (writer (copy_err g)) = 2"
  shows "\<exists>g'. run keepNeg er g
        (concat (map (\<lambda>e. [CopyRead (fst e), CopySend (fst e), PlexWrite, CopyTee (fst e)]) es))
        = Some g'
      \<and> main_at g' = AtWait \<and> plex_at g' = Receiving \<and> removed g' = removed g
      \<and> received g' = received g
          @ map fst (copy_events (writer (copy_out g)) (writer (copy_err g)) es)
      \<and> wrote g' = wrote g
          @ map (\<lambda>x. the (Marshal (fst x))) (copy_events (writer (copy_out g)) (writer (copy_err g)) es)
      \<and> shown g' = shown g
          @ map snd (copy_events (writer (copy_out g)) (writer (copy_err g)) es)"
  using assms
proof (induction es arbitrary: g)
  case Nil
  then show ?case by simp
next
  case (Cons e es)
  obtain p tn d where e: "e = (p, tn, d)" by (cases e) auto
  let ?four = "[CopyRead p, CopySend p, PlexWrite, CopyTee p]"
  show ?case
  proof (cases p)
    case StdoutPipe
    obtain ts rec n where w: "Write (writer (copy_out g)) tn d = (ts, rec, n)"
      by (cases "Write (writer (copy_out g)) tn d") auto
    from Write_id [OF w] Cons.prems(7) have i: "ts_id ts = 1" "Id' rec = 1" by simp_all
    let ?g = "g\<lparr>copy_out := \<lparr>copy_at = Reading, writer = ts, pending = chunks StdoutPipe es\<rparr>,
        received := received g @ [rec], wrote := wrote g @ [the (Marshal rec)],
        shown := shown g @ [Stdout d]\<rparr>"
    have four: "run keepNeg er g ?four = Some ?g"
      using Cons.prems w i
      by (simp add: e StdoutPipe copier_of_def with_copier_def chunks_def
          stream_of_def Marshal_def)
    have "\<exists>g'. run keepNeg er ?g
        (concat (map (\<lambda>e. [CopyRead (fst e), CopySend (fst e), PlexWrite, CopyTee (fst e)]) es))
        = Some g'
      \<and> main_at g' = AtWait \<and> plex_at g' = Receiving \<and> removed g' = removed ?g
      \<and> received g' = received ?g
          @ map fst (copy_events (writer (copy_out ?g)) (writer (copy_err ?g)) es)
      \<and> wrote g' = wrote ?g
          @ map (\<lambda>x. the (Marshal (fst x))) (copy_events (writer (copy_out ?g)) (writer (copy_err ?g)) es)
      \<and> shown g' = shown ?g
          @ map snd (copy_events (writer (copy_out ?g)) (writer (copy_err ?g)) es)"
      using Cons.prems i by (intro Cons.IH) (simp_all add: e StdoutPipe chunks_def)
    then obtain g' where g': "run keepNeg er ?g
        (concat (map (\<lambda>e. [CopyRead (fst e), CopySend (fst e), PlexWrite, CopyTee (fst e)]) es))
        = Some g'"
      and rest: "main_at g' = AtWait" "plex_at g' = Receiving" "removed g' = removed g"
        "received g' = received g @ [rec] @ map fst (copy_events ts (writer (copy_err g)) es)"
        "wrote g' = wrote g @ [the (Marshal rec)]
          @ map (\<lambda>x. the (Marshal (fst x))) (copy_events ts (writer (copy_err g)) es)"
        "shown g' = shown g @ [Stdout d] @ map snd (copy_events ts (writer (copy_err g)) es)"
      by auto
    have "run keepNeg er g (?four
        @ concat (map (\<lambda>e. [CopyRead (fst e), CopySend (fst e), PlexWrite, CopyTee (fst e)]) es))
        = Some g'"
      unfolding run_append four using g' by simp
    with rest w show ?thesis
      by (intro exI [of _ g']) (simp add: e StdoutPipe)
  next
    case StderrPipe
    obtain ts rec n where w: "Write (writer (copy_err g)) tn d = (ts, rec, n)"
      by (cases "Write (writer (copy_err g)) tn d") auto
    from Write_id [OF w] Cons.prems(8) have i: "ts_id ts = 2" "Id' rec = 2" by simp_all
    let ?g = "g\<lparr>copy_err := \<lparr>copy_at = Reading, writer = ts, pending = chunks StderrPipe es\<rparr>,
        received := received g @ [rec], wrote := wrote g @ [the (Marshal rec)],
        shown := shown g @ [Stderr d]\<rparr>"
    have four: "run keepNeg er g ?four = Some ?g"
      using Cons.prems w i
      by (simp add: e StderrPipe copier_of_def with_copier_def chunks_def
          stream_of_def Marshal_def)
    have "\<exists>g'. run keepNeg er ?g
        (concat (map (\<lambda>e. [CopyRead (fst e), CopySend (fst e), PlexWrite, CopyTee (fst e)]) es))
        = Some g'
      \<and> main_at g' = AtWait \<and> plex_at g' = Receiving \<and> removed g' = removed ?g
      \<and> received g' = received ?g
          @ map fst (copy_events (writer (copy_out ?g)) (writer (copy_err ?g)) es)
      \<and> wrote g' = wrote ?g
          @ map (\<lambda>x. the (Marshal (fst x))) (copy_events (writer (copy_out ?g)) (writer (copy_err ?g)) es)
      \<and> shown g' = shown ?g
          @ map snd (copy_events (writer (copy_out ?g)) (writer (copy_err ?g)) es)"
      using Cons.prems i by (intro Cons.IH) (simp_all add: e StderrPipe chunks_def)
    then obtain g' where g': "run keepNeg er ?g
        (concat (map (\<lambda>e. [CopyRead (fst e), CopySend (fst e), PlexWrite, CopyTee (fst e)]) es))
        = Some g'"
      and rest: "main_at g' = AtWait" "plex_at g' = Receiving" "removed g' = removed g"
        "received g' = received g @ [rec] @ map fst (copy_events (writer (copy_out g)) ts es)"
        "wrote g' = wrote g @ [the (Marshal rec)]
          @ map (\<lambda>x. the (Marshal (fst x))) (copy_events (writer (copy_out g)) ts es)"
        "shown g' = shown g @ [Stderr d] @ map snd (copy_events (writer (copy_out g)) ts es)"
      by auto
    have "run keepNeg er g (?four
        @ concat (map (\<lambda>e. [CopyRead (fst e), CopySend (fst e), PlexWrite, CopyTee (fst e)]) es))
        = Some g'"
      unfolding run_append four using g' by simp
    with rest w show ?thesis
      by (intro exI [of _ g']) (simp add: e StderrPipe)
  qed
qed

lemma capture_in_order:
  "\<exists>g. run keepNeg er (start now1 now2 es) (in_order es) = Some g
     \<and> main_at g = Exited (exit_status er) \<and> plex_at g = Returned
     \<and> result (capture keepNeg old created now1 now2 (Runs es er)) = Exit (exit_status er)
     \<and> received g = channel (capture keepNeg old created now1 now2 (Runs es er))
     \<and> wrote g = sink (capture keepNeg old created now1 now2 (Runs es er))
     \<and> shown g = console (capture keepNeg old created now1 now2 (Runs es er))
     \<and> removed g = ((\<exists>sys. er = ExitError sys) \<and> \<not> keepNeg)"
proof -
  let ?init = "start now1 now2 es"
  from copy_in_order [of ?init es keepNeg er]
  obtain g1 where r1: "run keepNeg er ?init
        (concat (map (\<lambda>e. [CopyRead (fst e), CopySend (fst e), PlexWrite, CopyTee (fst e)]) es))
        = Some g1"
    and g1: "main_at g1 = AtWait" "plex_at g1 = Receiving" "removed g1 = False"
      "received g1 = map fst (copy_events (OpenTS now1 1) (OpenTS now2 2) es)"
      "wrote g1 = map (\<lambda>x. the (Marshal (fst x))) (copy_events (OpenTS now1 1) (OpenTS now2 2) es)"
      "shown g1 = map snd (copy_events (OpenTS now1 1) (OpenTS now2 2) es)"
    by (auto simp: start_def OpenTS_def)
  let ?ex = "\<lparr>T = 0, Id' = 127, Buf = [word_of_int (exit_status er)]\<rparr>"
  let ?g = "g1\<lparr>main_at := Exited (exit_status er), plex_at := Returned,
      removed := (\<exists>sys. er = ExitError sys) \<and> \<not> keepNeg,
      received := received g1 @ [?ex], wrote := wrote g1 @ [the (Marshal ?ex)]\<rparr>"
  have four: "run keepNeg er g1 [DoWait, SendExit, PlexWrite, Finish] = Some ?g"
    using g1
    by (auto simp: Let_def exit_status_def Marshal_def
        split: wait_error.splits option.splits)
  have "run keepNeg er ?init (in_order es) = Some ?g"
    unfolding in_order_def run_append r1 option.case by (rule four)
  then show ?thesis
    using g1
    by (intro exI [of _ ?g])
      (simp add: capture_Runs Let_def exit_record_def copy_events_console)
qed

section \<open>The claims\<close>

text \<open>
  C1. For every sequence of records tagged 1 or 2 that ends in one record tagged 127 with a
  one-byte payload, with elapsed times that fit Go's \<^verbatim>\<open>int\<close> and payloads shorter than
  \<open>2 ^ 32\<close> bytes: \<open>plex\<close> encodes all of them and signals the end, and decoding the bytes
  it wrote gives back, record by record, the same elapsed time, tag and payload, as the
  replay reads them.
\<close>

theorem C1_round_trip:
  assumes "\<forall>r\<in>set pre. valid_record r \<and> (Id' r = 1 \<or> Id' r = 2)"
    and "- (2 ^ 63) \<le> t" and "t < 2 ^ 63"
  shows "snd (plex (pre @ [\<lparr>T = t, Id' = 127, Buf = [b]\<rparr>]) [])
    \<and> map fields (decode_all (concat (fst (plex (pre @ [\<lparr>T = t, Id' = 127, Buf = [b]\<rparr>]) []))))
        = map (\<lambda>r. Some (T r, Id' r, Buf r)) (pre @ [\<lparr>T = t, Id' = 127, Buf = [b]\<rparr>])"
proof -
  let ?ex = "\<lparr>T = t, Id' = 127, Buf = [b]\<rparr>"
  from assms(1) have n: "\<forall>r\<in>set pre. Id' r \<noteq> 127" by auto
  have p: "plex (pre @ [?ex]) [] = (map (\<lambda>r. the (Marshal r)) (pre @ [?ex]), True)"
    by (rule plex_all [OF n]) simp
  have v: "\<forall>r\<in>set (pre @ [?ex]). valid_record r"
    using assms by (auto simp: valid_record_def)
  have d: "decode_all (concat (map (\<lambda>r. the (Marshal r)) (pre @ [?ex])))
      = map record_value (pre @ [?ex])"
    using decode_all_Marshal [OF v, of "[]"] by (simp add: decode_all_Nil)
  have fp: "\<forall>r\<in>set pre. fields (record_value r) = Some (T r, Id' r, Buf r)"
  proof
    fix r assume r: "r \<in> set pre"
    with assms(1) have "valid_record r" "- 128 \<le> Id' r" "Id' r \<le> 127" by auto
    then show "fields (record_value r) = Some (T r, Id' r, Buf r)"
      by (rule fields_record_value)
  qed
  have fe: "fields (record_value ?ex) = Some (t, 127, [b])"
    using fields_record_value [of ?ex] assms(2,3) by (simp add: valid_record_def)
  have m: "map fields (map record_value (pre @ [?ex]))
      = map (\<lambda>r. Some (T r, Id' r, Buf r)) (pre @ [?ex])"
    using fp fe by simp
  show ?thesis
    by (simp only: p fst_conv snd_conv d m)
qed

theorem C1_round_trip_witness:
  "map fields (decode_all (concat (fst (plex
      [\<lparr>T = 1000000000, Id' = 1, Buf = [104, 105]\<rparr>, \<lparr>T = 0, Id' = 2, Buf = []\<rparr>,
       \<lparr>T = 0, Id' = 127, Buf = [255]\<rparr>] []))))
     = [Some (1000000000, 1, [104, 105]), Some (0, 2, []), Some (0, 127, [255])]
   \<and> snd (plex
      [\<lparr>T = 1000000000, Id' = 1, Buf = [104, 105]\<rparr>, \<lparr>T = 0, Id' = 2, Buf = []\<rparr>,
       \<lparr>T = 0, Id' = 127, Buf = [255]\<rparr>] [])"
proof -
  have v: "\<forall>r\<in>set [\<lparr>T = 1000000000, Id' = 1, Buf = [104, 105]\<rparr>, \<lparr>T = 0, Id' = 2, Buf = []\<rparr>].
      valid_record r \<and> (Id' r = 1 \<or> Id' r = 2)"
    by (simp add: valid_record_def)
  from C1_round_trip [OF v, of 0 255] show ?thesis by simp
qed

text \<open>
  C2. In every capture, the records sent on the channel are records tagged 1 or 2, with the
  payloads and tags of the chunks of the child in their order, followed by exactly one
  record tagged 127; what \<open>plex\<close> writes is the encoding of these records in that order;
  and \<open>plex\<close> writes nothing after the record tagged 127, whatever is offered on the
  channel after it, having signalled on \<^verbatim>\<open>finished\<close>.
\<close>

theorem C2_capture_sequence:
  assumes "s = capture keepNeg old created now1 now2 c"
  shows "channel s \<noteq> []
    \<and> (\<forall>r\<in>set (butlast (channel s)). Id' r = 1 \<or> Id' r = 2)
    \<and> Id' (last (channel s)) = 127
    \<and> sink s = map (\<lambda>r. the (Marshal r)) (channel s)
    \<and> (\<forall>post. plex (channel s @ post) [] = (sink s, True))
    \<and> (\<forall>es w. c = Runs es w \<longrightarrow>
          map Buf (butlast (channel s)) = map (\<lambda>e. snd (snd e)) es
          \<and> map Id' (butlast (channel s))
              = map (\<lambda>e. case fst e of StdoutPipe \<Rightarrow> 1 | StderrPipe \<Rightarrow> 2) es)"
proof (cases c)
  case (StartFails er)
  have i: "Id' (exit_record 0) = 127" by (simp add: exit_record_def)
  have "\<And>post. plex ([] @ exit_record 0 # post) []
      = ([] @ map (\<lambda>r. the (Marshal r)) ([] @ [exit_record 0]), True)"
    by (rule plex_upto_exit) (simp_all add: i)
  then have p: "\<And>post. plex (exit_record 0 # post) [] = ([the (Marshal (exit_record 0))], True)"
    by simp
  show ?thesis
    unfolding assms StartFails capture_StartFails
    by (simp add: p i del: plex.simps)
next
  case (Runs es w)
  let ?copied = "copy_events (OpenTS now1 1) (OpenTS now2 2) es"
  let ?ex = "exit_record (exit_status w)"
  have ch: "channel s = map fst ?copied @ [?ex]"
    and sk: "sink s = map (\<lambda>r. the (Marshal r)) (map fst ?copied @ [?ex])"
    unfolding assms Runs capture_Runs by (simp_all add: Let_def)
  have ids: "\<forall>r\<in>set (map fst ?copied). Id' r = 1 \<or> Id' r = 2"
    using copy_events_ids [of "OpenTS now1 1" "OpenTS now2 2" es] by (auto simp: OpenTS_def)
  then have n127: "\<forall>r\<in>set (map fst ?copied). Id' r \<noteq> 127" by auto
  have ex: "Id' ?ex = 127" by (simp add: exit_record_def)
  have p: "\<And>post. plex ((map fst ?copied @ [?ex]) @ post) [] = (sink s, True)"
    using plex_upto_exit [OF n127 ex, of _ "[]"] by (simp add: sk)
  have b: "map Buf (map fst ?copied) = map (\<lambda>e. snd (snd e)) es"
    using copy_events_payloads [of "OpenTS now1 1" "OpenTS now2 2" es] by (simp add: comp_def)
  have t: "map Id' (map fst ?copied) = map (\<lambda>e. case fst e of StdoutPipe \<Rightarrow> 1 | StderrPipe \<Rightarrow> 2) es"
    using copy_events_tags [of "OpenTS now1 1" "OpenTS now2 2" es]
    by (simp add: comp_def OpenTS_def cong: pipe.case_cong)
  show ?thesis
    unfolding ch using ids ex p b t sk Runs by (simp add: butlast_append)
qed

theorem C2_capture_sequence_witness:
  "channel (capture False None True 0 0
      (Runs [(StdoutPipe, 5000000, [65]), (StderrPipe, 7000000, [66])] NoError))
     = [\<lparr>T = 5, Id' = 1, Buf = [65]\<rparr>, \<lparr>T = 7, Id' = 2, Buf = [66]\<rparr>,
        \<lparr>T = 0, Id' = 127, Buf = [0]\<rparr>]
   \<and> sink (capture False None True 0 0
      (Runs [(StdoutPipe, 5000000, [65]), (StderrPipe, 7000000, [66])] NoError))
     = map (\<lambda>r. the (Marshal r))
        [\<lparr>T = 5, Id' = 1, Buf = [65]\<rparr>, \<lparr>T = 7, Id' = 2, Buf = [66]\<rparr>,
         \<lparr>T = 0, Id' = 127, Buf = [0]\<rparr>]
   \<and> plex (channel (capture False None True 0 0
        (Runs [(StdoutPipe, 5000000, [65]), (StderrPipe, 7000000, [66])] NoError))
        @ [\<lparr>T = 9, Id' = 1, Buf = [67]\<rparr>]) []
     = (sink (capture False None True 0 0
        (Runs [(StdoutPipe, 5000000, [65]), (StderrPipe, 7000000, [66])] NoError)), True)"
proof -
  let ?s = "capture False None True 0 0
      (Runs [(StdoutPipe, 5000000, [65]), (StderrPipe, 7000000, [66])] NoError)"
  have ch: "channel ?s = [\<lparr>T = 5, Id' = 1, Buf = [65]\<rparr>, \<lparr>T = 7, Id' = 2, Buf = [66]\<rparr>,
        \<lparr>T = 0, Id' = 127, Buf = [0]\<rparr>]"
    by (simp add: capture_Runs Let_def OpenTS_def Write_def Sub_def Millisecond_def
        signed_divide_int_def exit_record_def exit_status_def)
  from C2_capture_sequence [of ?s False None True 0 0
      "Runs [(StdoutPipe, 5000000, [65]), (StderrPipe, 7000000, [66])] NoError"]
  have "sink ?s = map (\<lambda>r. the (Marshal r)) (channel ?s)"
    and "plex (channel ?s @ [\<lparr>T = 9, Id' = 1, Buf = [67]\<rparr>]) [] = (sink ?s, True)"
    by blast+
  with ch show ?thesis by simp
qed

text \<open>
  C3. After a child that ran, with \<open>code\<close> being 0 when \<^verbatim>\<open>Wait\<close> reported no error and
  the exit status of the wait status when it reported an \<^verbatim>\<open>*exec.ExitError\<close>.

  In \<open>capture\<close>: the last record sent on the channel has elapsed time 0, tag 127 and the
  one byte \<open>byte(code)\<close> as payload (which is \<open>code\<close> itself between 0 and 255), it is the
  last record written, and the run ends with \<open>Exit code\<close>; and \<open>capture\<close> is the run of
  the goroutines in which every chunk is recorded, in the order of the events, before
  \<^verbatim>\<open>Wait\<close> returns.

  In every state \<open>g\<close> that the goroutines reach, under whatever schedule \<open>as\<close>: the exit
  code that \<^verbatim>\<open>main\<close> holds is \<open>code\<close>. Before \<^verbatim>\<open>main\<close> has sent its record, \<open>plex\<close> has
  received records tagged 1 or 2 only and has not reached its send on \<^verbatim>\<open>finished\<close>.
  Once \<^verbatim>\<open>main\<close> is past its send, the last record that \<open>plex\<close> has received is the
  record of the exit code. \<^verbatim>\<open>main\<close> stays at the receive of line 236 while \<open>plex\<close>
  holds this record, not yet written, or is at its send on \<^verbatim>\<open>finished\<close>, with the record
  written. \<^verbatim>\<open>main\<close> is past the receive, at \<^verbatim>\<open>panic(Exit{code})\<close>, exactly when \<open>plex\<close> has
  sent on \<^verbatim>\<open>finished\<close> and returned, and then every record received is written, the
  record of the exit code last. The wait ends: from \<open>g\<close> some schedule leads \<^verbatim>\<open>main\<close> to
  \<^verbatim>\<open>panic(Exit{code})\<close>, and no schedule has more than \<open>4 * length es + 6\<close> steps.
\<close>

theorem C3_exit_record:
  assumes "w = NoError \<and> code = 0 \<or> w = ExitError (Some code)"
    and "s = capture keepNeg old created now1 now2 (Runs es w)"
    and "run keepNeg w (start now1 now2 es) as = Some g"
  shows "last (channel s) = \<lparr>T = 0, Id' = 127, Buf = [word_of_int code]\<rparr>
    \<and> last (sink s) = the (Marshal \<lparr>T = 0, Id' = 127, Buf = [word_of_int code]\<rparr>)
    \<and> result s = Exit code
    \<and> (0 \<le> code \<and> code \<le> 255 \<longrightarrow> map uint (Buf (last (channel s))) = [code])
    \<and> (\<exists>g'. run keepNeg w (start now1 now2 es) (in_order es) = Some g'
          \<and> main_at g' = Exited code \<and> plex_at g' = Returned
          \<and> received g' = channel s \<and> wrote g' = sink s \<and> shown g' = console s)
    \<and> (\<forall>c. main_at g = AtSend c \<or> main_at g = AtReceive c \<or> main_at g = Exited c \<longrightarrow> c = code)
    \<and> (main_at g = AtWait \<or> main_at g = AtSend code \<longrightarrow>
          (\<forall>r\<in>set (received g). Id' r = 1 \<or> Id' r = 2)
          \<and> plex_at g \<noteq> Signalling \<and> plex_at g \<noteq> Returned)
    \<and> (main_at g = AtReceive code \<or> main_at g = Exited code \<longrightarrow>
          received g \<noteq> []
          \<and> last (received g) = \<lparr>T = 0, Id' = 127, Buf = [word_of_int code]\<rparr>
          \<and> (\<forall>r\<in>set (butlast (received g)). Id' r = 1 \<or> Id' r = 2))
    \<and> (main_at g = AtReceive code \<longrightarrow>
          plex_at g = Got \<lparr>T = 0, Id' = 127, Buf = [word_of_int code]\<rparr>
            \<and> wrote g = map (\<lambda>r. the (Marshal r)) (butlast (received g))
          \<or> plex_at g = Signalling \<and> wrote g = map (\<lambda>r. the (Marshal r)) (received g))
    \<and> (main_at g = Exited code) = (plex_at g = Returned)
    \<and> (main_at g = Exited code \<longrightarrow> wrote g = map (\<lambda>r. the (Marshal r)) (received g))
    \<and> (\<exists>bs g'. run keepNeg w g bs = Some g' \<and> main_at g' = Exited code)
    \<and> length as \<le> 4 * length es + 6"
proof -
  let ?ex = "\<lparr>T = 0, Id' = 127, Buf = [word_of_int code]\<rparr>"
  from assms(1) have e: "exit_status w = code"
    by (auto simp: exit_status_def)
  have x: "exit_record code = ?ex"
    by (simp add: exit_record_def)
  have inv: "sound w g"
    by (rule run_sound [OF assms(3) sound_start])
  have a: "last (channel s) = ?ex \<and> last (sink s) = the (Marshal ?ex) \<and> result s = Exit code
      \<and> (0 \<le> code \<and> code \<le> 255 \<longrightarrow> map uint (Buf (last (channel s))) = [code])"
    unfolding assms(2) capture_Runs
    by (simp add: Let_def e exit_record_def uint_byte)
  have b: "\<exists>g'. run keepNeg w (start now1 now2 es) (in_order es) = Some g'
      \<and> main_at g' = Exited code \<and> plex_at g' = Returned
      \<and> received g' = channel s \<and> wrote g' = sink s \<and> shown g' = console s"
    using capture_in_order [of keepNeg w now1 now2 es old created]
    unfolding assms(2) e by blast
  have c: "\<forall>c. main_at g = AtSend c \<or> main_at g = AtReceive c \<or> main_at g = Exited c \<longrightarrow> c = code"
    using inv e by (auto simp: sound_def)
  have d: "main_at g = AtWait \<or> main_at g = AtSend code \<longrightarrow>
      (\<forall>r\<in>set (received g). Id' r = 1 \<or> Id' r = 2)
      \<and> plex_at g \<noteq> Signalling \<and> plex_at g \<noteq> Returned"
    using inv by (auto simp: sound_def copying_def)
  have f: "main_at g = AtReceive code \<or> main_at g = Exited code \<longrightarrow>
      received g \<noteq> [] \<and> last (received g) = ?ex
      \<and> (\<forall>r\<in>set (butlast (received g)). Id' r = 1 \<or> Id' r = 2)"
    using inv x by (auto simp: sound_def ended_def)
  have h: "main_at g = AtReceive code \<longrightarrow>
      plex_at g = Got ?ex \<and> wrote g = map (\<lambda>r. the (Marshal r)) (butlast (received g))
      \<or> plex_at g = Signalling \<and> wrote g = map (\<lambda>r. the (Marshal r)) (received g)"
    using inv x by (auto simp: sound_def in_step_def)
  have i: "(main_at g = Exited code) = (plex_at g = Returned)"
    using inv e by (cases "main_at g") (auto simp: sound_def copying_def)
  have j: "main_at g = Exited code \<longrightarrow> wrote g = map (\<lambda>r. the (Marshal r)) (received g)"
    using inv by (auto simp: sound_def in_step_def)
  have k: "\<exists>bs g'. run keepNeg w g bs = Some g' \<and> main_at g' = Exited code"
    using can_finish [OF inv, of keepNeg] unfolding e .
  have l: "length as \<le> 4 * length es + 6"
    using run_length [OF assms(3)] by (simp add: steps_left_start)
  from a b c d f h i j k l show ?thesis by blast
qed

theorem C3_exit_record_witness:
  "run False (ExitError (Some 3)) (start 0 0 [(StdoutPipe, 5000000, [65])])
      [CopyRead StdoutPipe, CopySend StdoutPipe, DoWait, PlexWrite, SendExit]
     = Some \<lparr>main_at = AtReceive 3, plex_at = Got \<lparr>T = 0, Id' = 127, Buf = [3]\<rparr>,
         copy_out = \<lparr>copy_at = Teeing [65], writer = \<lparr>ts_t = 5000000, ts_id = 1\<rparr>, pending = []\<rparr>,
         copy_err = \<lparr>copy_at = Reading, writer = \<lparr>ts_t = 0, ts_id = 2\<rparr>, pending = []\<rparr>,
         received = [\<lparr>T = 5, Id' = 1, Buf = [65]\<rparr>, \<lparr>T = 0, Id' = 127, Buf = [3]\<rparr>],
         wrote = [the (Marshal \<lparr>T = 5, Id' = 1, Buf = [65]\<rparr>)],
         shown = [], removed = True\<rparr>
   \<and> run False (ExitError (Some 3)) (start 0 0 [(StdoutPipe, 5000000, [65])])
      [CopyRead StdoutPipe, CopySend StdoutPipe, DoWait, PlexWrite, SendExit, Finish] = None
   \<and> run False (ExitError (Some 3)) (start 0 0 [(StdoutPipe, 5000000, [65])])
      [CopyRead StdoutPipe, CopySend StdoutPipe, DoWait, PlexWrite, SendExit, CopyTee StdoutPipe,
       PlexWrite, Finish]
     = Some \<lparr>main_at = Exited 3, plex_at = Returned,
         copy_out = \<lparr>copy_at = Reading, writer = \<lparr>ts_t = 5000000, ts_id = 1\<rparr>, pending = []\<rparr>,
         copy_err = \<lparr>copy_at = Reading, writer = \<lparr>ts_t = 0, ts_id = 2\<rparr>, pending = []\<rparr>,
         received = [\<lparr>T = 5, Id' = 1, Buf = [65]\<rparr>, \<lparr>T = 0, Id' = 127, Buf = [3]\<rparr>],
         wrote = [the (Marshal \<lparr>T = 5, Id' = 1, Buf = [65]\<rparr>),
                  the (Marshal \<lparr>T = 0, Id' = 127, Buf = [3]\<rparr>)],
         shown = [Stdout [65]], removed = True\<rparr>
   \<and> last (channel (capture False None True 0 0
        (Runs [(StdoutPipe, 5000000, [65])] (ExitError (Some 3)))))
     = \<lparr>T = 0, Id' = 127, Buf = [3]\<rparr>
   \<and> result (capture False None True 0 0
        (Runs [(StdoutPipe, 5000000, [65])] (ExitError (Some 3)))) = Exit 3
   \<and> map uint (Buf (last (channel (capture False None True 0 0
        (Runs [(StdoutPipe, 5000000, [65])] (ExitError (Some 3))))))) = [3]"
proof -
  let ?init = "start 0 0 [(StdoutPipe, 5000000, [65])]"
  let ?blocked = "\<lparr>main_at = AtReceive 3, plex_at = Got \<lparr>T = 0, Id' = 127, Buf = [3]\<rparr>,
         copy_out = \<lparr>copy_at = Teeing [65], writer = \<lparr>ts_t = 5000000, ts_id = 1\<rparr>, pending = []\<rparr>,
         copy_err = \<lparr>copy_at = Reading, writer = \<lparr>ts_t = 0, ts_id = 2\<rparr>, pending = []\<rparr>,
         received = [\<lparr>T = 5, Id' = 1, Buf = [65]\<rparr>, \<lparr>T = 0, Id' = 127, Buf = [3]\<rparr>],
         wrote = [the (Marshal \<lparr>T = 5, Id' = 1, Buf = [65]\<rparr>)],
         shown = [], removed = True\<rparr>"
  let ?done = "\<lparr>main_at = Exited 3, plex_at = Returned,
         copy_out = \<lparr>copy_at = Reading, writer = \<lparr>ts_t = 5000000, ts_id = 1\<rparr>, pending = []\<rparr>,
         copy_err = \<lparr>copy_at = Reading, writer = \<lparr>ts_t = 0, ts_id = 2\<rparr>, pending = []\<rparr>,
         received = [\<lparr>T = 5, Id' = 1, Buf = [65]\<rparr>, \<lparr>T = 0, Id' = 127, Buf = [3]\<rparr>],
         wrote = [the (Marshal \<lparr>T = 5, Id' = 1, Buf = [65]\<rparr>),
                  the (Marshal \<lparr>T = 0, Id' = 127, Buf = [3]\<rparr>)],
         shown = [Stdout [65]], removed = True\<rparr>"
  have r1: "run False (ExitError (Some 3)) ?init
      [CopyRead StdoutPipe, CopySend StdoutPipe, DoWait, PlexWrite, SendExit] = Some ?blocked"
    by (simp add: start_def chunks_def copier_of_def with_copier_def
        OpenTS_def Write_def Sub_def Millisecond_def signed_divide_int_def Marshal_def Let_def)
  have r2: "run False (ExitError (Some 3)) ?init
      [CopyRead StdoutPipe, CopySend StdoutPipe, DoWait, PlexWrite, SendExit, Finish] = None"
    by (simp add: start_def chunks_def copier_of_def with_copier_def
        OpenTS_def Write_def Sub_def Millisecond_def signed_divide_int_def Marshal_def Let_def)
  have r3: "run False (ExitError (Some 3)) ?init
      [CopyRead StdoutPipe, CopySend StdoutPipe, DoWait, PlexWrite, SendExit, CopyTee StdoutPipe,
       PlexWrite, Finish] = Some ?done"
    by (simp add: start_def chunks_def copier_of_def with_copier_def
        stream_of_def OpenTS_def Write_def Sub_def Millisecond_def signed_divide_int_def
        Marshal_def Let_def)
  have "last (channel (capture False None True 0 0
        (Runs [(StdoutPipe, 5000000, [65])] (ExitError (Some 3)))))
       = \<lparr>T = 0, Id' = 127, Buf = [word_of_int 3]\<rparr>
     \<and> result (capture False None True 0 0
        (Runs [(StdoutPipe, 5000000, [65])] (ExitError (Some 3)))) = Exit 3
     \<and> map uint (Buf (last (channel (capture False None True 0 0
        (Runs [(StdoutPipe, 5000000, [65])] (ExitError (Some 3))))))) = [3]"
    using C3_exit_record [where w = "ExitError (Some 3)" and code = 3 and keepNeg = False
        and old = None and created = True and ?now1.0 = 0 and ?now2.0 = 0
        and es = "[(StdoutPipe, 5000000, [65])]", OF _ refl r3]
    by simp
  with r1 r2 r3 show ?thesis by simp
qed

text \<open>
  C4, as stated, fails: the loop does not stop at a record tagged 127. A file with a record
  tagged 1 after the record tagged 127 is replayed to the end, and the later payload is
  written to standard output.
\<close>

theorem C4_records_after_exit_counterexample:
  "console (replay False True
      (the (Marshal \<lparr>T = 0, Id' = 127, Buf = [3]\<rparr>) @ the (Marshal \<lparr>T = 0, Id' = 1, Buf = [120]\<rparr>)))
     = [Stdout [120]]
   \<and> result (replay False True
      (the (Marshal \<lparr>T = 0, Id' = 127, Buf = [3]\<rparr>) @ the (Marshal \<lparr>T = 0, Id' = 1, Buf = [120]\<rparr>)))
     = Exit 3"
proof -
  let ?a = "\<lparr>T = 0, Id' = 127, Buf = [3]\<rparr>" and ?b = "\<lparr>T = 0, Id' = 1, Buf = [120]\<rparr>"
  have v: "\<forall>r\<in>set [?a, ?b]. valid_record r" by (simp add: valid_record_def)
  have d: "decode_all (the (Marshal ?a) @ the (Marshal ?b)) = [record_value ?a, record_value ?b]"
    using decode_all_Marshal [OF v, of "[]"] by (simp add: decode_all_Nil)
  have fa: "fields (record_value ?a) = Some (0, 127, [3])"
    and fb: "fields (record_value ?b) = Some (0, 1, [120])"
    by (simp_all add: fields_record_value valid_record_def)
  have ok: "\<forall>v\<in>set (decode_all (the (Marshal ?a) @ the (Marshal ?b))). record_ok v"
    by (simp add: d record_ok_def fa fb)
  show ?thesis
    unfolding replay_ok [OF ok]
    by (simp add: d emitted_def fa fb last_exit_code_def exit_code_of_def List.map_filter_simps)
qed

text \<open>
  C4, amended. When every decoded value passes the type assertions, the replay writes, for
  every decoded value in order, the payload of a value tagged 1 to standard output and of a
  value tagged 2 to standard error (after a sleep of the recorded time, with
  \<^verbatim>\<open>-delay\<close>), writes nothing for any other tag, goes on until the decoder fails, and
  ends with the first payload byte of the last value tagged 127 (0 when there is none).
\<close>

theorem C4_replay_emits:
  assumes "\<forall>v\<in>set (decode_all content). record_ok v"
  shows "console (replay delay True content) = concat (map (emitted delay) (decode_all content))
    \<and> result (replay delay True content) = Exit (last_exit_code (decode_all content))"
  by (simp add: replay_ok [OF assms])

theorem C4_replay_emits_witness:
  "console (replay True True (concat (map (\<lambda>r. the (Marshal r))
      [\<lparr>T = 300, Id' = 1, Buf = [104]\<rparr>, \<lparr>T = 20, Id' = 2, Buf = [105]\<rparr>,
       \<lparr>T = 0, Id' = 127, Buf = [3]\<rparr>])))
     = [Sleep 300, Stdout [104], Sleep 20, Stderr [105], Sleep 0]
   \<and> result (replay True True (concat (map (\<lambda>r. the (Marshal r))
      [\<lparr>T = 300, Id' = 1, Buf = [104]\<rparr>, \<lparr>T = 20, Id' = 2, Buf = [105]\<rparr>,
       \<lparr>T = 0, Id' = 127, Buf = [3]\<rparr>])))
     = Exit 3"
proof -
  let ?rs = "[\<lparr>T = 300, Id' = 1, Buf = [104]\<rparr>, \<lparr>T = 20, Id' = 2, Buf = [105]\<rparr>,
       \<lparr>T = 0, Id' = 127, Buf = [3]\<rparr>]"
  have v: "\<forall>r\<in>set ?rs. valid_record r" by (simp add: valid_record_def)
  have d: "decode_all (concat (map (\<lambda>r. the (Marshal r)) ?rs)) = map record_value ?rs"
    using decode_all_Marshal [OF v, of "[]"] by (simp add: decode_all_Nil)
  have f: "fields (record_value \<lparr>T = 300, Id' = 1, Buf = [104]\<rparr>) = Some (300, 1, [104])"
    "fields (record_value \<lparr>T = 20, Id' = 2, Buf = [105]\<rparr>) = Some (20, 2, [105])"
    "fields (record_value \<lparr>T = 0, Id' = 127, Buf = [3]\<rparr>) = Some (0, 127, [3])"
    by (simp_all add: fields_record_value valid_record_def)
  have ok: "\<forall>v\<in>set (decode_all (concat (map (\<lambda>r. the (Marshal r)) ?rs))). record_ok v"
    unfolding d by (simp add: record_ok_def f)
  from C4_replay_emits [OF ok, of True] show ?thesis
    unfolding d
    by (simp add: emitted_def f last_exit_code_def exit_code_of_def List.map_filter_simps)
qed

text \<open>
  C5, as stated, fails: malformed input need not make the decoder fail. After the encoding
  of a record tagged 127 with exit code 3, one more byte \<open>0x01\<close> decodes to an integer,
  which is not a map: the type assertion of line 146 panics, and the run does not end with
  the exit code 3. The same holds for this encoding with its byte \<open>0xc4\<close> (a byte string
  follows) turned into \<open>0xa1\<close> (a string of one byte follows): the value decodes, its
  \<^verbatim>\<open>Buf\<close> is a string, and the type assertion of line 148 panics.
\<close>

theorem C5_malformed_input_counterexample:
  "the (Marshal \<lparr>T = 0, Id' = 127, Buf = [3]\<rparr>)
     = [0x83, 0xa1, 0x54, 0x00, 0xa2, 0x49, 0x64, 0x7f, 0xa3, 0x42, 0x75, 0x66, 0xc4, 0x01, 0x03]
   \<and> decode_all
       [0x83, 0xa1, 0x54, 0x00, 0xa2, 0x49, 0x64, 0x7f, 0xa3, 0x42, 0x75, 0x66, 0xc4, 0x01, 0x03,
        0x01]
     = [VMap [(''T'', VInt8 0), (''Id'', VInt8 127), (''Buf'', VBytes [3])], VInt8 1]
   \<and> result (replay False True
       [0x83, 0xa1, 0x54, 0x00, 0xa2, 0x49, 0x64, 0x7f, 0xa3, 0x42, 0x75, 0x66, 0xc4, 0x01, 0x03,
        0x01]) = Crash
   \<and> decode_all
       [0x83, 0xa1, 0x54, 0x00, 0xa2, 0x49, 0x64, 0x7f, 0xa3, 0x42, 0x75, 0x66, 0xa1, 0x01, 0x03]
     = [VMap [(''T'', VInt8 0), (''Id'', VInt8 127), (''Buf'', VString [CHR 0x01])], VInt8 3]
   \<and> result (replay False True
       [0x83, 0xa1, 0x54, 0x00, 0xa2, 0x49, 0x64, 0x7f, 0xa3, 0x42, 0x75, 0x66, 0xa1, 0x01, 0x03])
     = Crash"
  by code_simp

text \<open>
  C5, amended. An error of the decoder ends the replay, whatever the bytes that caused it:
  when every value decoded before the error passes the type assertions of lines 146-148
  (and has a payload when it is tagged 127), the run ends with the exit code of the last
  value tagged 127, and with 0 when there is none; when one of them does not, the run ends
  in a panic instead. In particular a file that holds the encodings of records (any tag of
  one byte; a record tagged 127 has a payload) followed by bytes on which the decoder fails
  (nothing at all, a truncated record, a code that is no value) is replayed without an
  error and ends with the exit code of its last record tagged 127. Here \<open>content\<close> is
  what the gzip reader delivers from an entry that could be opened; an entry that could not
  (\<^verbatim>\<open>gzip.NewReader\<close> fails on a file of no bytes at all) is the case \<open>readable = False\<close>
  of \<open>replay\<close>, which ends in a panic.
\<close>

theorem C5_decode_failure_ends_replay:
  "result (replay delay True content) =
     (if \<forall>v\<in>set (decode_all content). record_ok v
      then Exit (last_exit_code (decode_all content)) else Crash)
   \<and> ((\<forall>r\<in>set rs. valid_record r \<and> - 128 \<le> Id' r \<and> Id' r \<le> 127 \<and> (Id' r = 127 \<longrightarrow> Buf r \<noteq> []))
        \<and> DecodeInterface junk = None \<longrightarrow>
      result (replay delay True (concat (map (\<lambda>r. the (Marshal r)) rs) @ junk))
        = Exit (last (0 # map (\<lambda>r. uint (hd (Buf r))) (filter (\<lambda>r. Id' r = 127) rs))))"
proof
  show "result (replay delay True content) =
     (if \<forall>v\<in>set (decode_all content). record_ok v
      then Exit (last_exit_code (decode_all content)) else Crash)"
  proof (cases "\<forall>v\<in>set (decode_all content). record_ok v")
    case True
    then show ?thesis by (simp add: replay_ok)
  next
    case False
    then show ?thesis
      using replay_loop_crash [OF False, of delay 0 "[]"]
      by (auto simp: replay_def split: prod.splits)
  qed
  show "(\<forall>r\<in>set rs. valid_record r \<and> - 128 \<le> Id' r \<and> Id' r \<le> 127 \<and> (Id' r = 127 \<longrightarrow> Buf r \<noteq> []))
        \<and> DecodeInterface junk = None \<longrightarrow>
      result (replay delay True (concat (map (\<lambda>r. the (Marshal r)) rs) @ junk))
        = Exit (last (0 # map (\<lambda>r. uint (hd (Buf r))) (filter (\<lambda>r. Id' r = 127) rs)))"
    using replay_encoded [of rs junk delay] by blast
qed

theorem C5_decode_failure_ends_replay_witness:
  "result (replay False True
      (concat (map (\<lambda>r. the (Marshal r))
         [\<lparr>T = 5, Id' = 1, Buf = [104]\<rparr>, \<lparr>T = 0, Id' = 127, Buf = [3]\<rparr>]) @ [0x83, 0xa1]))
     = Exit 3
   \<and> DecodeInterface [0x83, 0xa1] = None
   \<and> result (replay False True (concat (map (\<lambda>r. the (Marshal r)) []) @ [0xc1])) = Exit 0
   \<and> DecodeInterface [0xc1] = None
   \<and> result (replay False True (concat (map (\<lambda>r. the (Marshal r)) []) @ [])) = Exit 0
   \<and> DecodeInterface [] = None
   \<and> result (replay False True [0x01]) = Crash
   \<and> decode_all [0x01] = [VInt8 1]"
proof -
  have t: "DecodeInterface [0x83, 0xa1] = None"
    by (simp add: DecodeInterface_def isFixedNum_def isMapCode_def mapLen_def
        DecodeString_def read_bytes_def bytesLen_def readN_def numeral_3_eq_3)
  have m: "DecodeInterface [0xc1] = None"
    by (simp add: DecodeInterface_def isFixedNum_def isMapCode_def isArrayCode_def
        decode_scalar_def)
  have e: "DecodeInterface [] = None"
    by (simp add: DecodeInterface_def)
  have v: "\<forall>r\<in>set [\<lparr>T = 5, Id' = 1, Buf = [104]\<rparr>, \<lparr>T = 0, Id' = 127, Buf = [3]\<rparr>].
      valid_record r \<and> - 128 \<le> Id' r \<and> Id' r \<le> 127 \<and> (Id' r = 127 \<longrightarrow> Buf r \<noteq> [])"
    by (simp add: valid_record_def)
  have n: "\<forall>r\<in>set ([] :: BufRecord list).
      valid_record r \<and> - 128 \<le> Id' r \<and> Id' r \<le> 127 \<and> (Id' r = 127 \<longrightarrow> Buf r \<noteq> [])"
    by simp
  have d: "decode_all [0x01] = [VInt8 1]"
    by code_simp
  have k: "\<not> (\<forall>v\<in>set (decode_all [0x01]). record_ok v)"
    unfolding d by (simp add: record_ok_def fields_def)
  from C5_decode_failure_ends_replay
      [of False "[0x01]" "[\<lparr>T = 5, Id' = 1, Buf = [104]\<rparr>, \<lparr>T = 0, Id' = 127, Buf = [3]\<rparr>]"
        "[0x83, 0xa1]"]
    v t k
  have a: "result (replay False True
      (concat (map (\<lambda>r. the (Marshal r))
         [\<lparr>T = 5, Id' = 1, Buf = [104]\<rparr>, \<lparr>T = 0, Id' = 127, Buf = [3]\<rparr>]) @ [0x83, 0xa1]))
     = Exit 3 \<and> result (replay False True [0x01]) = Crash"
    by simp
  from C5_decode_failure_ends_replay [of False "[]" "[]" "[0xc1]", THEN conjunct2] n m
  have b: "result (replay False True (concat (map (\<lambda>r. the (Marshal r)) []) @ [0xc1])) = Exit 0"
    by simp
  from C5_decode_failure_ends_replay [of False "[]" "[]" "[]", THEN conjunct2] n e
  have c: "result (replay False True (concat (map (\<lambda>r. the (Marshal r)) []) @ [])) = Exit 0"
    by simp
  from a b c t m e d show ?thesis by simp
qed

text \<open>
  C6. A lookup is fresh exactly when the entry file exists and either the time-to-live is
  the sentinel \<open>-1\<close> or the age in whole seconds is at most the time-to-live. With a
  bounded time-to-live, an entry exactly \<open>ttl\<close> seconds old is fresh and one exactly
  \<open>ttl + 1\<close> seconds old is stale.
\<close>

theorem C6_fresh_iff:
  "(fresh stat ttl now \<longleftrightarrow>
      (\<exists>modTime. stat = Some modTime \<and> (ttl = - 1 \<or> age_seconds now modTime \<le> ttl)))
   \<and> (\<forall>modTime. age_seconds now modTime = ttl \<longrightarrow> fresh (Some modTime) ttl now)
   \<and> (\<forall>modTime. ttl \<noteq> - 1 \<and> age_seconds now modTime = ttl + 1
         \<longrightarrow> \<not> fresh (Some modTime) ttl now)"
  by (auto simp: fresh_def split: option.splits)

theorem C6_fresh_iff_witness:
  "fresh (Some 40000000000) 60 100000000000
   \<and> age_seconds 100000000000 40000000000 = 60
   \<and> \<not> fresh (Some 39000000000) 60 100000000000
   \<and> age_seconds 100000000000 39000000000 = 60 + 1
   \<and> \<not> fresh None 60 100000000000"
proof -
  have a: "age_seconds 100000000000 40000000000 = 60"
    by (simp add: age_seconds_exact)
  have b: "age_seconds 100000000000 39000000000 = 60 + 1"
    by (simp add: age_seconds_exact)
  have n: "(60::int) \<noteq> - 1" by simp
  from C6_fresh_iff [of "Some 40000000000" 60 100000000000] a
  have 1: "fresh (Some 40000000000) 60 100000000000" by blast
  from C6_fresh_iff [of "Some 39000000000" 60 100000000000] b n
  have 2: "\<not> fresh (Some 39000000000) 60 100000000000" by blast
  from C6_fresh_iff [of None 60 100000000000]
  have 3: "\<not> fresh None 60 100000000000" by simp
  from 1 2 3 a b show ?thesis by blast
qed

text \<open>
  C7. When the child exits with a code from 1 to 255 (and its chunks are shorter than
  \<open>2 ^ 32\<close> bytes): without \<^verbatim>\<open>-ve\<close> no entry is left under the name; with \<^verbatim>\<open>-ve\<close>,
  and the entry file created, the entry is kept, and every later run that finds it fresh and
  readable ends with the same exit code.
\<close>

theorem C7_negative_results:
  assumes "1 \<le> code" and "code \<le> 255"
    and "\<forall>e\<in>set es. length (snd (snd e)) < 2 ^ 32"
  shows "entry (capture False old created now1 now2 (Runs es (ExitError (Some code)))) = None
    \<and> (\<exists>content.
          entry (capture True old True now1 now2 (Runs es (ExitError (Some code)))) = Some content
          \<and> (\<forall>ttl delay keepNeg now modTime created' now1' now2' c.
                fresh (Some modTime) ttl now \<longrightarrow>
                result (main ttl delay keepNeg now (Some (modTime, content)) True created'
                          now1' now2' c) = Exit code))"
proof -
  let ?recs = "map fst (copy_events (OpenTS now1 1) (OpenTS now2 2) es)"
  let ?ch = "?recs @ [exit_record code]"
  let ?content = "concat (map (\<lambda>r. the (Marshal r)) ?ch)"
  have e: "exit_status (ExitError (Some code)) = code" by (simp add: exit_status_def)
  have gone: "entry (capture False old created now1 now2 (Runs es (ExitError (Some code)))) = None"
    by (simp add: capture_Runs Let_def)
  have kept: "entry (capture True old True now1 now2 (Runs es (ExitError (Some code)))) = Some ?content"
    by (simp add: capture_Runs Let_def e)
  have ids: "\<forall>r\<in>set ?recs. Id' r = 1 \<or> Id' r = 2"
    using copy_events_ids [of "OpenTS now1 1" "OpenTS now2 2" es] by (auto simp: OpenTS_def)
  have val: "\<forall>r\<in>set ?recs. valid_record r"
    using copy_events_valid [OF assms(3), of "OpenTS now1 1" "OpenTS now2 2"]
    by (auto simp: OpenTS_def)
  have all: "\<forall>r\<in>set ?ch. valid_record r \<and> - 128 \<le> Id' r \<and> Id' r \<le> 127
      \<and> (Id' r = 127 \<longrightarrow> Buf r \<noteq> [])"
    using ids val by (auto simp: exit_record_def valid_record_def)
  have none: "DecodeInterface [] = None" by (simp add: DecodeInterface_def)
  have f: "filter (\<lambda>r. Id' r = 127) ?ch = [exit_record code]"
    using ids by (auto simp: exit_record_def filter_empty_conv)
  have u: "uint (hd (Buf (exit_record code))) = code"
    using assms(1,2) by (simp add: exit_record_def uint_word_of_int)
  have r: "result (replay delay True ?content) = Exit code" for delay
  proof -
    have "result (replay delay True (?content @ []))
        = Exit (last (0 # map (\<lambda>r. uint (hd (Buf r))) (filter (\<lambda>r. Id' r = 127) ?ch)))"
      by (rule replay_encoded [OF all none])
    then show ?thesis
      unfolding f by (simp add: u)
  qed
  have "\<forall>ttl delay keepNeg now modTime created' now1' now2' c.
      fresh (Some modTime) ttl now \<longrightarrow>
      result (main ttl delay keepNeg now (Some (modTime, ?content)) True created' now1' now2' c)
        = Exit code"
  proof (intro allI impI)
    fix ttl delay keepNeg now modTime created' now1' now2' c
    assume "fresh (Some modTime) ttl now"
    then show "result (main ttl delay keepNeg now (Some (modTime, ?content)) True created'
        now1' now2' c) = Exit code"
      by (simp only: main_def option.case prod.case if_True r)
  qed
  with gone kept show ?thesis by blast
qed

theorem C7_negative_results_witness:
  "entry (capture False None True 0 0
        (Runs [(StdoutPipe, 1000000, [104])] (ExitError (Some 3)))) = None
   \<and> entry (capture True None True 0 0
        (Runs [(StdoutPipe, 1000000, [104])] (ExitError (Some 3))))
       = Some (concat (map (\<lambda>r. the (Marshal r))
           [\<lparr>T = 1, Id' = 1, Buf = [104]\<rparr>, \<lparr>T = 0, Id' = 127, Buf = [3]\<rparr>]))
   \<and> fresh (Some 50) 60 100
   \<and> result (main 60 False False 100
        (Some (50, concat (map (\<lambda>r. the (Marshal r))
           [\<lparr>T = 1, Id' = 1, Buf = [104]\<rparr>, \<lparr>T = 0, Id' = 127, Buf = [3]\<rparr>])))
        True True 100 100 (Runs [] NoError)) = Exit 3"
proof -
  let ?es = "[(StdoutPipe, 1000000, [104])] :: event list"
  let ?file = "concat (map (\<lambda>r. the (Marshal r))
           [\<lparr>T = 1, Id' = 1, Buf = [104]\<rparr>, \<lparr>T = 0, Id' = 127, Buf = [3]\<rparr>])"
  have l: "\<forall>e\<in>set ?es. length (snd (snd e)) < 2 ^ 32" by simp
  have k: "entry (capture True None True 0 0 (Runs ?es (ExitError (Some 3)))) = Some ?file"
    by (simp add: capture_Runs Let_def OpenTS_def Write_def Sub_def Millisecond_def
        signed_divide_int_def exit_record_def exit_status_def)
  have f: "fresh (Some 50) 60 100"
    by (simp add: fresh_def age_seconds_def Sub_def Second_def signed_divide_int_def)
  from C7_negative_results [of 3 ?es None True 0 0, OF _ _ l] k f
  have "entry (capture False None True 0 0 (Runs ?es (ExitError (Some 3)))) = None"
    and "result (main 60 False False 100 (Some (50, ?file)) True True 100 100 (Runs [] NoError))
      = Exit 3"
    by auto
  with k f show ?thesis by simp
qed

text \<open>
  C8, as stated, fails: after a failed start the capture still sends the record of the exit
  code on the channel, and \<open>plex\<close> encodes and writes it.
\<close>

theorem C8_start_failure_counterexample:
  "channel (capture False None True 0 0 (StartFails ''exec: not found''))
     = [\<lparr>T = 0, Id' = 127, Buf = [0]\<rparr>]
   \<and> sink (capture False None True 0 0 (StartFails ''exec: not found''))
     = [[0x83, 0xa1, 0x54, 0x00, 0xa2, 0x49, 0x64, 0x7f, 0xa3, 0x42, 0x75, 0x66, 0xc4, 0x01, 0x00]]
   \<and> result (capture False None True 0 0 (StartFails ''exec: not found'')) = Exit 0"
  by (simp add: capture_StartFails exit_record_def Marshal_def EncodeMapLen_def EncodeString_def
      EncodeInt_def EncodeUint_def EncodeBytes_def byte_of_char_def)

text \<open>
  C8, amended. When the child fails to start, the name of the entry is removed, the failure
  message is written to standard error, no record tagged 1 or 2 is sent, one record tagged
  127 with payload 0 is sent, encoded and written to the removed file, and the run ends
  with exit code 0.
\<close>

theorem C8_start_failure:
  "entry (capture keepNeg old created now1 now2 (StartFails er)) = None
   \<and> console (capture keepNeg old created now1 now2 (StartFails er))
       = [Stderr (map byte_of_char
            (''cmd.Start() failed with '' @ [CHR 0x27] @ er @ [CHR 0x27, CHR 0x0A]))]
   \<and> channel (capture keepNeg old created now1 now2 (StartFails er))
       = [\<lparr>T = 0, Id' = 127, Buf = [0]\<rparr>]
   \<and> sink (capture keepNeg old created now1 now2 (StartFails er))
       = [the (Marshal \<lparr>T = 0, Id' = 127, Buf = [0]\<rparr>)]
   \<and> result (capture keepNeg old created now1 now2 (StartFails er)) = Exit 0"
  by (simp add: capture_StartFails exit_record_def)




text \<open>
  C10. The key is computed from the arguments joined by one space, so it does not
  determine the argument list: \<open>["a b", "c"]\<close> and \<open>["a", "b", "c"]\<close> are different
  argument lists with the same joined form, hence with the same entry file name,
  whatever the digest function is.
\<close>

theorem C10_key_not_injective:
  "[''a b'', ''c''] \<noteq> [''a'', ''b'', ''c'']
   \<and> strings_Join [''a b'', ''c''] '' '' = strings_Join [''a'', ''b'', ''c''] '' ''
   \<and> filename md5hex [''a b'', ''c''] = filename md5hex [''a'', ''b'', ''c'']"
  by (simp add: filename_def)

end
